theory Spec2Isabelle
  imports Main "HOL-Library.Word" "HOL-Library.Sublist"
begin

section \<open>Snapshot hash agent (libskale/SnapshotHashAgent.cpp)\<close>

text \<open>
  A \<open>dev::h256\<close> is a 256-bit value; its \<open>operator<\<close> (the order of the
  \<open>std::map\<close> used for the tally) is the unsigned order of the word.
\<close>

type_synonym h256 = "256 word"

text \<open>
  One entry of \<open>chain_params_.sChain.nodes\<close> (\<open>node_id\<close> is its \<open>id\<close>). The
  port is a multiprecision unsigned integer, printed in decimal by
  \<open>convert_to< std::string >()\<close>.
\<close>

record node =
  node_id :: nat
  ip :: string
  port :: nat

text \<open>
  The members of \<open>SnapshotHashAgent\<close> that the functions of the file read and
  write. The curve points of libff (\<open>alt_bn128_G1\<close>, \<open>alt_bn128_G2\<close>) are the
  type parameters \<open>'g1\<close> and \<open>'g2\<close>. The three per-peer vectors are only ever
  indexed at \<open>i < n_\<close>; they are kept as index functions. The members are
  named as in the source without the trailing underscore; \<open>n_\<close> is \<open>agent_n\<close>
  below. The common public key is kept assembled (the source
  assembles it from four configuration strings on every vote).
\<close>

record ('g1, 'g2) agent =
  own_id :: nat
  nodes :: "node list"
  common_public :: 'g2
  hashes :: "nat \<Rightarrow> h256"
  signatures :: "nat \<Rightarrow> 'g1"
  public_keys :: "nat \<Rightarrow> 'g2"
  nodes_to_download_snapshot_from :: "nat list"
  voted_hash :: "h256 \<times> 'g1"

text \<open>
  Modelled from the spec: the member \<open>n_\<close> is set by the constructor, which is
  in \<open>SnapshotHashAgent.h\<close> and not among the sources; it is the total number
  of nodes \<open>n\<close> of the node list.
\<close>

definition agent_n :: "('g1, 'g2) agent \<Rightarrow> nat" where
  "agent_n a = length (nodes a)"

text \<open>
  The threshold-signature object \<open>signatures::Bls\<close> of libBLS is outside the
  repository: its three operations are parameters. Each may throw; \<open>Inl w\<close> is
  an exception with message \<open>w\<close>. \<open>G1_default\<close> is the value of a
  default-constructed \<open>alt_bn128_G1\<close>.
\<close>

record ('g1, 'g2, 'fr) bls =
  Verification :: "h256 \<Rightarrow> 'g1 \<Rightarrow> 'g2 \<Rightarrow> string + bool"
  LagrangeCoeffs :: "nat list \<Rightarrow> string + 'fr list"
  SignatureRecover :: "'g1 list \<Rightarrow> 'fr list \<Rightarrow> string + 'g1"
  G1_default :: 'g1

text \<open>
  The exceptions that leave \<open>voteForHash\<close>: the \<open>std::logic_error\<close> of a share
  that does not verify (with the index of the node), an exception of the
  library, the \<open>std::runtime_error\<close> that \<open>verifyAllData\<close> throws with the
  caught exception nested in it, and the \<open>std::logic_error\<close> of a tally without
  a winner.
\<close>

datatype vote_error =
    NotVerified nat
  | BlsException string
  | VerifyFatal vote_error
  | NotEnoughVotes

definition is_self :: "('g1, 'g2) agent \<Rightarrow> nat \<Rightarrow> bool" where
  "is_self a i = (own_id a = node_id (nodes a ! i))"

subsection \<open>verifyAllData\<close>

fun verify_loop ::
  "('g1, 'g2, 'fr) bls \<Rightarrow> ('g1, 'g2) agent \<Rightarrow> nat list \<Rightarrow> vote_error + unit" where
  "verify_loop b a [] = Inr ()"
| "verify_loop b a (i # is) =
     (if is_self a i then verify_loop b a is
      else (case Verification b (hashes a i) (signatures a i) (public_keys a i) of
              Inl w \<Rightarrow> Inl (VerifyFatal (BlsException w))
            | Inr False \<Rightarrow> Inl (VerifyFatal (NotVerified i))
            | Inr True \<Rightarrow> verify_loop b a is))"

definition verifyAllData :: "('g1, 'g2, 'fr) bls \<Rightarrow> ('g1, 'g2) agent \<Rightarrow> vote_error + unit" where
  "verifyAllData b a = verify_loop b a [0..<agent_n a]"

subsection \<open>voteForHash\<close>

text \<open>
  \<open>map_hash[h] += 1\<close> on a \<open>std::map< h256, size_t >\<close>: the map is the list of
  its entries in ascending key order, which is the order \<open>find_if\<close> visits.
\<close>

fun map_incr :: "h256 \<Rightarrow> (h256 \<times> nat) list \<Rightarrow> (h256 \<times> nat) list" where
  "map_incr h [] = [(h, 1)]"
| "map_incr h ((k, c) # m) =
     (if h = k then (k, c + 1) # m
      else if h < k then (h, 1) # (k, c) # m
      else (k, c) # map_incr h m)"

fun tally_loop :: "('g1, 'g2) agent \<Rightarrow> nat list \<Rightarrow> (h256 \<times> nat) list \<Rightarrow> (h256 \<times> nat) list" where
  "tally_loop a [] m = m"
| "tally_loop a (i # is) m =
     (if is_self a i then tally_loop a is m
      else tally_loop a is (map_incr (hashes a i) m))"

definition map_hash :: "('g1, 'g2) agent \<Rightarrow> (h256 \<times> nat) list" where
  "map_hash a = tally_loop a [0..<agent_n a] []"

text \<open>
  The tally's winner: the first entry with \<open>3 * p.second > 2 * n_\<close>. The operands
  are \<open>size_t\<close>; \<open>n_\<close> and the counts are bounded by the size of the vectors
  held in memory, so the products stay far below \<open>2 ^ 64\<close> and are read as
  naturals.
\<close>

definition find_winner :: "('g1, 'g2) agent \<Rightarrow> (h256 \<times> nat) option" where
  "find_winner a = List.find (\<lambda>p. 3 * snd p > 2 * agent_n a) (map_hash a)"

text \<open>The indices pushed by the second loop: the peers, not this node, that reported \<open>h\<close>.\<close>

definition reporters :: "('g1, 'g2) agent \<Rightarrow> h256 \<Rightarrow> nat list" where
  "reporters a h = filter (\<lambda>i. \<not> is_self a i \<and> hashes a i = h) [0..<agent_n a]"

text \<open>
  Recovery of the common signature. An exception of either call is caught and
  logged, and \<open>common_signature\<close> keeps its default-constructed value.
\<close>

definition recover_signature :: "('g1, 'g2, 'fr) bls \<Rightarrow> nat list \<Rightarrow> 'g1 list \<Rightarrow> 'g1" where
  "recover_signature b idx sigs =
     (case LagrangeCoeffs b idx of
        Inl w \<Rightarrow> G1_default b
      | Inr lagrange_coeffs \<Rightarrow>
          (case SignatureRecover b sigs lagrange_coeffs of
             Inl w \<Rightarrow> G1_default b
           | Inr common_signature \<Rightarrow> common_signature))"

text \<open>
  \<open>voteForHash( this->voted_hash_ )\<close>: the result is the exception or the
  returned \<open>bool\<close>, together with the agent as the call leaves it. The
  contributing peers are appended to \<open>nodes_to_download_snapshot_from\<close> before
  the common signature is checked.
\<close>

definition voteForHash ::
  "('g1, 'g2, 'fr) bls \<Rightarrow> ('g1, 'g2) agent \<Rightarrow> (vote_error + bool) \<times> ('g1, 'g2) agent" where
  "voteForHash b a =
     (case verifyAllData b a of
        Inl e \<Rightarrow> (Inl e, a)
      | Inr u \<Rightarrow>
          (case find_winner a of
             None \<Rightarrow> (Inl NotEnoughVotes, a)
           | Some it \<Rightarrow>
               (let sel = reporters a (fst it);
                    a1 = a\<lparr>nodes_to_download_snapshot_from :=
                             nodes_to_download_snapshot_from a @ sel\<rparr>;
                    idx = map Suc sel;
                    sigs = map (signatures a) sel;
                    common_signature = recover_signature b idx sigs
                in (case Verification b (fst it) common_signature (common_public a) of
                      Inl w \<Rightarrow> (Inr False, a1)
                    | Inr False \<Rightarrow> (Inr False, a1)
                    | Inr True \<Rightarrow>
                        (Inr True, a1\<lparr>voted_hash := (fst it, common_signature)\<rparr>)))))"

subsection \<open>getNodesToDownloadSnapshotFrom\<close>

text \<open>Decimal printing of an unsigned number (\<open>std::to_string\<close>, \<open>convert_to\<close>).\<close>

definition digit_char :: "nat \<Rightarrow> char" where
  "digit_char d = ''0123456789'' ! d"

fun to_string :: "nat \<Rightarrow> string" where
  "to_string n = (if n < 10 then [digit_char n] else to_string (n div 10) @ [digit_char (n mod 10)])"

declare to_string.simps [simp del]

definition endpoint :: "('g1, 'g2) agent \<Rightarrow> nat \<Rightarrow> string" where
  "endpoint a idx =
     ''http://'' @ ip (nodes a ! idx) @ '':'' @ to_string (port (nodes a ! idx) + 3)"

text \<open>
  One collection task. \<open>rpc\<close> is what the two calls to the peer and the decoding
  of their answers give: \<open>Inl w\<close> when any of them throws (the task catches the
  exception and logs it), otherwise the hash, the signature share and the public
  key share, which the task stores at the peer's index. Every task writes its own
  index only and all tasks are joined before the vote, so the tasks are run in
  index order here.
\<close>

definition collect_task ::
  "(nat \<Rightarrow> string + h256 \<times> 'g1 \<times> 'g2) \<Rightarrow> nat \<Rightarrow> ('g1, 'g2) agent \<Rightarrow> ('g1, 'g2) agent" where
  "collect_task rpc i a =
     (case rpc i of
        Inl w \<Rightarrow> a
      | Inr (h, s, pk) \<Rightarrow>
          a\<lparr>hashes := (hashes a)(i := h),
            signatures := (signatures a)(i := s),
            public_keys := (public_keys a)(i := pk)\<rparr>)"

fun collect_loop ::
  "(nat \<Rightarrow> string + h256 \<times> 'g1 \<times> 'g2) \<Rightarrow> nat list \<Rightarrow> ('g1, 'g2) agent \<Rightarrow> ('g1, 'g2) agent" where
  "collect_loop rpc [] a = a"
| "collect_loop rpc (i # is) a =
     (if is_self a i then collect_loop rpc is a
      else collect_loop rpc is (collect_task rpc i a))"

definition collect ::
  "(nat \<Rightarrow> string + h256 \<times> 'g1 \<times> 'g2) \<Rightarrow> ('g1, 'g2) agent \<Rightarrow> ('g1, 'g2) agent" where
  "collect rpc a = collect_loop rpc [0..<agent_n a] a"

text \<open>
  \<open>mk_bls t n\<close> is \<open>new signatures::Bls( t, n )\<close>; \<open>rpc block_number\<close> gives the
  outcome of every peer's task for that block. The result is the exception that
  leaves the call or the returned list of endpoints.
\<close>

definition getNodesToDownloadSnapshotFrom ::
  "(nat \<Rightarrow> nat \<Rightarrow> ('g1, 'g2, 'fr) bls) \<Rightarrow> (nat \<Rightarrow> nat \<Rightarrow> string + h256 \<times> 'g1 \<times> 'g2) \<Rightarrow>
   nat \<Rightarrow> ('g1, 'g2) agent \<Rightarrow> (vote_error + string list) \<times> ('g1, 'g2) agent" where
  "getNodesToDownloadSnapshotFrom mk_bls rpc block_number a =
     (let bls_obj = mk_bls ((2 * agent_n a + 2) div 3) (agent_n a);
          a1 = collect (rpc block_number) a;
          (result, a2) = voteForHash bls_obj a1
      in (case result of
            Inl e \<Rightarrow> (Inl e, a2)
          | Inr False \<Rightarrow> (Inr [], a2)
          | Inr True \<Rightarrow>
              (Inr (map (endpoint a2) (nodes_to_download_snapshot_from a2)), a2)))"

section \<open>Snapshot manager (libskale/SnapshotManager.cpp)\<close>

text \<open>
  The part of the data directory that the manager works on. A subvolume is the
  string of its bytes. \<open>live\<close> holds the volumes \<open>data_dir / vol\<close>;
  \<open>snapshots\<close> lists the directories of \<open>snapshots_dir\<close> in the order in which
  \<open>fs::directory_iterator\<close> visits them, each with its block number (the
  directory is named \<open>to_string( _blockNumber )\<close>) and the clones below it by
  volume name; \<open>diffs\<close> holds the regular files of \<open>diffs_dir\<close> by file name.
  \<open>send_calls\<close> counts the calls of \<open>btrfs.send\<close>.
\<close>

type_synonym snapshot_dir = "string \<rightharpoonup> string"

record manager =
  volumes :: "string list"
  live :: "string \<rightharpoonup> string"
  snapshots :: "(nat \<times> snapshot_dir) list"
  diffs :: "string \<rightharpoonup> string"
  send_calls :: nat

datatype fs_error =
    SnapshotPresent nat
  | SnapshotAbsent nat
  | CannotPerformBtrfsOperation
  | CannotWrite string
  | OutOfRange
  | PastTheEnd

text \<open>\<open>fs::exists( snapshots_dir / to_string( b ) )\<close>.\<close>

definition snapshot_exists :: "manager \<Rightarrow> nat \<Rightarrow> bool" where
  "snapshot_exists m b = (map_of (snapshots m) b \<noteq> None)"

definition set_dir :: "nat \<Rightarrow> snapshot_dir \<Rightarrow> manager \<Rightarrow> manager" where
  "set_dir b d m = m\<lparr>snapshots := map (\<lambda>e. if fst e = b then (b, d) else e) (snapshots m)\<rparr>"

text \<open>\<open>fs::create_directory\<close> and \<open>fs::remove_all\<close> on a directory of \<open>snapshots_dir\<close>.\<close>

definition create_directory :: "nat \<Rightarrow> manager \<Rightarrow> manager" where
  "create_directory b m = m\<lparr>snapshots := snapshots m @ [(b, Map.empty)]\<rparr>"

definition remove_all :: "nat \<Rightarrow> manager \<Rightarrow> manager" where
  "remove_all b m = m\<lparr>snapshots := filter (\<lambda>e. fst e \<noteq> b) (snapshots m)\<rparr>"

text \<open>
  Modelled from the spec: the primitives of \<open>skutils/btrfs.h\<close>, which is not among
  the sources. \<open>snapshot(sourceVolume, destinationDir)\<close> creates a read-only clone
  of the live volume at the destination and fails when it cannot;
  \<open>deleteVolume(path)\<close> removes a clone and fails when there is none. Each returns
  \<open>0\<close> on success, as the callers test.
\<close>

definition btrfs_subvolume_snapshot_r :: "string \<Rightarrow> nat \<Rightarrow> manager \<Rightarrow> int \<times> manager" where
  "btrfs_subvolume_snapshot_r vol b m =
     (case live m vol of
        None \<Rightarrow> (1, m)
      | Some c \<Rightarrow>
          (case map_of (snapshots m) b of
             None \<Rightarrow> (1, m)
           | Some d \<Rightarrow> (if d vol = None then (0, set_dir b (d(vol \<mapsto> c)) m) else (1, m))))"

definition btrfs_subvolume_delete :: "nat \<Rightarrow> string \<Rightarrow> manager \<Rightarrow> int \<times> manager" where
  "btrfs_subvolume_delete b vol m =
     (case map_of (snapshots m) b of
        None \<Rightarrow> (1, m)
      | Some d \<Rightarrow> (if d vol = None then (1, m) else (0, set_dir b (d(vol := None)) m)))"

text \<open>
  Modelled from the spec: \<open>send(sourceClone)\<close> produces the byte representation
  of a clone's content; \<open>stream\<close> is that representation. The part file exists
  afterwards also when the call fails (the source: "file is created even in case
  of error").
\<close>

definition btrfs_send ::
  "(string \<Rightarrow> string) \<Rightarrow> string \<Rightarrow> nat \<Rightarrow> string \<Rightarrow> manager \<Rightarrow> int \<times> manager" where
  "btrfs_send stream part_path b vol m =
     (let m1 = m\<lparr>send_calls := send_calls m + 1\<rparr>
      in (case map_of (snapshots m1) b of
            None \<Rightarrow> (1, m1\<lparr>diffs := (diffs m1)(part_path \<mapsto> [])\<rparr>)
          | Some d \<Rightarrow>
              (case d vol of
                 None \<Rightarrow> (1, m1\<lparr>diffs := (diffs m1)(part_path \<mapsto> [])\<rparr>)
               | Some c \<Rightarrow> (0, m1\<lparr>diffs := (diffs m1)(part_path \<mapsto> stream c)\<rparr>))))"

subsection \<open>doSnapshot and removeSnapshot\<close>

fun snapshot_loop :: "string list \<Rightarrow> nat \<Rightarrow> manager \<Rightarrow> (fs_error + unit) \<times> manager" where
  "snapshot_loop [] b m = (Inr (), m)"
| "snapshot_loop (vol # vols) b m =
     (let (res, m1) = btrfs_subvolume_snapshot_r vol b m
      in if res \<noteq> 0 then (Inl CannotPerformBtrfsOperation, m1) else snapshot_loop vols b m1)"

definition doSnapshot :: "nat \<Rightarrow> manager \<Rightarrow> (fs_error + unit) \<times> manager" where
  "doSnapshot blockNumber m =
     (if snapshot_exists m blockNumber then (Inl (SnapshotPresent blockNumber), m)
      else snapshot_loop (volumes m) blockNumber (create_directory blockNumber m))"

fun delete_loop :: "string list \<Rightarrow> nat \<Rightarrow> manager \<Rightarrow> (fs_error + unit) \<times> manager" where
  "delete_loop [] b m = (Inr (), m)"
| "delete_loop (vol # vols) b m =
     (let (res, m1) = btrfs_subvolume_delete b vol m
      in if res \<noteq> 0 then (Inl CannotPerformBtrfsOperation, m1) else delete_loop vols b m1)"

definition removeSnapshot :: "nat \<Rightarrow> manager \<Rightarrow> (fs_error + unit) \<times> manager" where
  "removeSnapshot blockNumber m =
     (if \<not> snapshot_exists m blockNumber then (Inl (SnapshotAbsent blockNumber), m)
      else delete_loop (volumes m) blockNumber m)"

subsection \<open>leaveNLastSnapshots and getLatestSnasphot\<close>

text \<open>
  \<open>std::stoi\<close> on the name of a snapshot directory, which is the decimal form of
  its block number: the value as an \<open>int\<close>, or \<open>std::out_of_range\<close>.
\<close>

definition stoi :: "nat \<Rightarrow> fs_error + int" where
  "stoi b = (if b < 2 ^ 31 then Inr (int b) else Inl OutOfRange)"

text \<open>
  \<open>numbers.insert( make_pair( key, path ) )\<close> on a
  \<open>map< int, fs::path, std::greater< int > >\<close>: the entries in the order of
  iteration, highest key first; an entry whose key is present already is not
  replaced. The path is kept as the block number that names the directory.
\<close>

fun numbers_insert :: "int \<times> nat \<Rightarrow> (int \<times> nat) list \<Rightarrow> (int \<times> nat) list" where
  "numbers_insert p [] = [p]"
| "numbers_insert p (q # ns) =
     (if fst p = fst q then q # ns
      else if fst p > fst q then p # q # ns
      else q # numbers_insert p ns)"

text \<open>The first loop of both functions; the directory named \<open>0\<close> is left out.\<close>

fun collect_numbers ::
  "(nat \<times> snapshot_dir) list \<Rightarrow> (int \<times> nat) list \<Rightarrow> fs_error + (int \<times> nat) list" where
  "collect_numbers [] numbers = Inr numbers"
| "collect_numbers (f # fs) numbers =
     (if fst f \<noteq> 0
      then (case stoi (fst f) of
              Inl e \<Rightarrow> Inl e
            | Inr k \<Rightarrow> collect_numbers fs (numbers_insert (k, fst f) numbers))
      else collect_numbers fs numbers)"

text \<open>
  The second loop of \<open>leaveNLastSnapshots\<close>, with the counter \<open>i\<close>. The counter
  is an \<open>unsigned\<close>; the map has fewer than \<open>2 ^ 31\<close> entries, so it does not
  wrap.
\<close>

fun prune_loop :: "nat \<Rightarrow> nat \<Rightarrow> (int \<times> nat) list \<Rightarrow> manager \<Rightarrow> (fs_error + unit) \<times> manager" where
  "prune_loop n i [] m = (Inr (), m)"
| "prune_loop n i (p # ps) m =
     (if i > n
      then (case delete_loop (volumes m) (snd p) m of
              (Inl e, m1) \<Rightarrow> (Inl e, m1)
            | (Inr u, m1) \<Rightarrow> prune_loop n (i + 1) ps (remove_all (snd p) m1))
      else prune_loop n (i + 1) ps m)"

definition leaveNLastSnapshots :: "nat \<Rightarrow> manager \<Rightarrow> (fs_error + unit) \<times> manager" where
  "leaveNLastSnapshots n m =
     (case collect_numbers (snapshots m) [] of
        Inl e \<Rightarrow> (Inl e, m)
      | Inr numbers \<Rightarrow> prune_loop n 1 numbers m)"

text \<open>
  \<open>getLatestSnasphot\<close>. \<open>numbers.rbegin()\<close> is the last entry in the order of
  iteration. After \<open>it++\<close> the iterator is \<open>numbers.rend()\<close> when the map has one
  entry, and the branch taken in that case dereferences it: \<open>PastTheEnd\<close> stands
  for that undefined read.
\<close>

definition getLatestSnasphot :: "manager \<Rightarrow> fs_error + int \<times> int" where
  "getLatestSnasphot m =
     (case collect_numbers (snapshots m) [] of
        Inl e \<Rightarrow> Inl e
      | Inr numbers \<Rightarrow>
          (if numbers = [] then Inr (0, 0)
           else (case stoi (snd (last numbers)) of
                   Inl e \<Rightarrow> Inl e
                 | Inr fst_val \<Rightarrow>
                     (if length numbers > 1 then Inr (fst_val, 0)
                      else Inl PastTheEnd))))"

subsection \<open>makeOrGetDiff\<close>

text \<open>The name of the diff file of a block inside \<open>diffs_dir\<close>.\<close>

definition getDiffPath :: "nat \<Rightarrow> string" where
  "getDiffPath toBlock = to_string toBlock"

text \<open>\<open>fs::remove\<close> on files of \<open>diffs_dir\<close>; a file that is not there is no error.\<close>

fun remove_files :: "string list \<Rightarrow> manager \<Rightarrow> manager" where
  "remove_files [] m = m"
| "remove_files (f # fs) m = remove_files fs (m\<lparr>diffs := (diffs m)(f := None)\<rparr>)"

text \<open>
  \<open>system( "cat part ... >path" )\<close>: the shell creates the target and \<open>cat\<close>
  writes the parts it can read into it; the status is \<open>0\<close> when it read them all.
\<close>

definition system_cat :: "string list \<Rightarrow> string \<Rightarrow> manager \<Rightarrow> int \<times> manager" where
  "system_cat parts path m =
     (let contents = map (diffs m) parts;
          out = concat (map (case_option [] (\<lambda>c. c)) contents)
      in (if None \<in> set contents then 1 else 0, m\<lparr>diffs := (diffs m)(path \<mapsto> out)\<rparr>))"

text \<open>
  The loop over the volumes. It returns the part files created, or the error
  after the clean-up the source does when \<open>btrfs.send\<close> fails.
\<close>

fun send_loop ::
  "(string \<Rightarrow> string) \<Rightarrow> string \<Rightarrow> nat \<Rightarrow> string list \<Rightarrow> string list \<Rightarrow> manager \<Rightarrow>
   (fs_error + string list) \<times> manager" where
  "send_loop stream path b [] created m = (Inr created, m)"
| "send_loop stream path b (vol # vols) created m =
     (let part_path = path @ ''_'' @ vol;
          created1 = created @ [part_path];
          (res, m1) = btrfs_send stream part_path b vol m
      in if res \<noteq> 0
         then (Inl CannotPerformBtrfsOperation, remove_files (path # created1) m1)
         else send_loop stream path b vols created1 m1)"

definition makeOrGetDiff ::
  "(string \<Rightarrow> string) \<Rightarrow> nat \<Rightarrow> manager \<Rightarrow> (fs_error + string) \<times> manager" where
  "makeOrGetDiff stream toBlock m =
     (let path = getDiffPath toBlock
      in if diffs m path \<noteq> None then (Inr path, m)
         else if \<not> snapshot_exists m toBlock
         then (Inl (SnapshotAbsent toBlock), remove_files [path] m)
         else (case send_loop stream path toBlock (volumes m) [] m of
                 (Inl e, m1) \<Rightarrow> (Inl e, m1)
               | (Inr created, m1) \<Rightarrow>
                   (let (cat_res, m2) = system_cat created path m1;
                        m3 = remove_files created m2
                    in if cat_res \<noteq> 0 then (Inl (CannotWrite path), m3)
                       else (Inr path, m3))))"

subsection \<open>proceedFileSystemDirectory\<close>

text \<open>
  What the walk of the file-storage tree reads and writes: the content of the
  regular files by path, the hash files \<open>path._hash\<close> by their path with the
  \<open>h256\<close> they hold, and the bytes written so far to the running context
  \<open>ctx\<close>, as the list of the 32-byte values written.
\<close>

record hash_walk =
  file_content :: "string \<Rightarrow> string"
  hash_files :: "string \<rightharpoonup> h256"
  ctx :: "h256 list"

text \<open>
  \<open>dev::sha256\<close> is the parameter \<open>sha\<close>; \<open>fin\<close> is the digest that
  \<open>secp256k1_sha256_finalize\<close> gives for a fresh context to which a list of
  32-byte values was written. The digest of a file is that of the hash of its
  path followed by the hash of its content.
\<close>

definition file_hash ::
  "(string \<Rightarrow> h256) \<Rightarrow> (h256 list \<Rightarrow> h256) \<Rightarrow> hash_walk \<Rightarrow> string \<Rightarrow> h256" where
  "file_hash sha fin w p = fin [sha p, sha (file_content w p)]"

text \<open>
  Reading a hash file into a default-constructed \<open>h256\<close>: the value stored, or
  zero when the file cannot be opened.
\<close>

definition read_hash :: "hash_walk \<Rightarrow> string \<Rightarrow> h256" where
  "read_hash w f = (case hash_files w f of None \<Rightarrow> 0 | Some h \<Rightarrow> h)"

text \<open>
  The body of the loop for one entry of the walk: its path and whether it is a
  regular file. \<open>boost::filesystem::extension( p ) != "._hash"\<close> holds when the
  path does not end in \<open>._hash\<close>.
\<close>

definition proceed_entry ::
  "(string \<Rightarrow> h256) \<Rightarrow> (h256 list \<Rightarrow> h256) \<Rightarrow> bool \<Rightarrow> string \<times> bool \<Rightarrow> hash_walk \<Rightarrow> hash_walk" where
  "proceed_entry sha fin is_checking e w =
     (let p = fst e; fileHashPathStr = p @ ''._hash''
      in if snd e
         then (if \<not> suffix ''._hash'' p
               then (if \<not> is_checking
                     then (let w1 = (if hash_files w fileHashPathStr = None
                                     then w\<lparr>hash_files :=
                                            (hash_files w)(fileHashPathStr \<mapsto> file_hash sha fin w p)\<rparr>
                                     else w)
                           in w1\<lparr>ctx := ctx w1 @ [read_hash w1 fileHashPathStr]\<rparr>)
                     else (let fileHash = file_hash sha fin w p
                           in w\<lparr>hash_files := (hash_files w)(fileHashPathStr \<mapsto> fileHash),
                                ctx := ctx w @ [fileHash]\<rparr>))
               else w)
         else (if \<not> is_checking
               then (let w1 = (if hash_files w fileHashPathStr = None
                               then w\<lparr>hash_files := (hash_files w)(fileHashPathStr \<mapsto> sha p)\<rparr>
                               else w)
                     in w1\<lparr>ctx := ctx w1 @ [read_hash w1 fileHashPathStr]\<rparr>)
               else w\<lparr>hash_files := (hash_files w)(fileHashPathStr \<mapsto> sha p),
                      ctx := ctx w @ [sha p]\<rparr>))"

fun proceedFileSystemDirectory ::
  "(string \<Rightarrow> h256) \<Rightarrow> (h256 list \<Rightarrow> h256) \<Rightarrow> (string \<times> bool) list \<Rightarrow> bool \<Rightarrow> hash_walk \<Rightarrow> hash_walk" where
  "proceedFileSystemDirectory sha fin [] is_checking w = w"
| "proceedFileSystemDirectory sha fin (e # es) is_checking w =
     proceedFileSystemDirectory sha fin es is_checking (proceed_entry sha fin is_checking e w)"

section \<open>Concrete rounds and data directories\<close>

text \<open>
  A chain of four nodes; this node is the first. The library is replaced by a
  toy scheme in which a signature is the pair of the signing key and the hash:
  a share verifies against its own key, and the recovered signature is that of
  the common key \<open>100\<close> on the hash of the first share.
\<close>

definition ex_nodes :: "node list" where
  "ex_nodes =
     [\<lparr>node_id = 10, ip = ''10.0.0.1'', port = 1231\<rparr>,
      \<lparr>node_id = 11, ip = ''10.0.0.2'', port = 1231\<rparr>,
      \<lparr>node_id = 12, ip = ''10.0.0.3'', port = 1231\<rparr>,
      \<lparr>node_id = 13, ip = ''10.0.0.4'', port = 1231\<rparr>]"

definition ex_agent :: "(nat \<times> h256, nat) agent" where
  "ex_agent =
     \<lparr>own_id = 10, nodes = ex_nodes, common_public = 100,
      hashes = (\<lambda>i. 0), signatures = (\<lambda>i. (0, 0)), public_keys = (\<lambda>i. 0),
      nodes_to_download_snapshot_from = [], voted_hash = (0, (0, 0))\<rparr>"

definition ex_bls :: "nat \<Rightarrow> nat \<Rightarrow> (nat \<times> h256, nat, nat) bls" where
  "ex_bls t n =
     \<lparr>Verification = (\<lambda>h s pk. Inr (s = (pk, h))),
      LagrangeCoeffs = (\<lambda>idx. if length idx < t then Inl ''not enough participants''
                               else Inr (map (\<lambda>i. 1) idx)),
      SignatureRecover = (\<lambda>sigs cs. case sigs of [] \<Rightarrow> Inl ''no shares''
                                     | s # r \<Rightarrow> Inr (100, snd s)),
      G1_default = (0, 0)\<rparr>"

text \<open>
  Outcomes of the collection tasks: all peers report the same hash; the peer at
  index 2 sends a signature that is not its own; the peer at index 3 reports
  another hash; only the peer at index 1 answers; only the peer at index 1 fails.
\<close>

definition ex_rpc_agree :: "nat \<Rightarrow> nat \<Rightarrow> string + h256 \<times> (nat \<times> h256) \<times> nat" where
  "ex_rpc_agree block_number i = Inr (171, (i + 1, 171), i + 1)"

definition ex_rpc_forged :: "nat \<Rightarrow> nat \<Rightarrow> string + h256 \<times> (nat \<times> h256) \<times> nat" where
  "ex_rpc_forged block_number i =
     (if i = 2 then Inr (171, (99, 171), 3) else Inr (171, (i + 1, 171), i + 1))"

definition ex_rpc_split :: "nat \<Rightarrow> nat \<Rightarrow> string + h256 \<times> (nat \<times> h256) \<times> nat" where
  "ex_rpc_split block_number i =
     (if i = 3 then Inr (205, (i + 1, 205), i + 1) else Inr (171, (i + 1, 171), i + 1))"

definition ex_rpc_first :: "nat \<Rightarrow> nat \<Rightarrow> string + h256 \<times> (nat \<times> h256) \<times> nat" where
  "ex_rpc_first block_number i =
     (if i = 1 then Inr (171, (i + 1, 171), i + 1) else Inl ''connection refused'')"

definition ex_rpc_retry :: "nat \<Rightarrow> nat \<Rightarrow> string + h256 \<times> (nat \<times> h256) \<times> nat" where
  "ex_rpc_retry block_number i =
     (if i = 1 then Inl ''connection refused'' else Inr (171, (i + 1, 171), i + 1))"

text \<open>A data directory with two volumes and no snapshot, and a toy \<open>send\<close> stream.\<close>

definition ex_manager :: manager where
  "ex_manager =
     \<lparr>volumes = [''db'', ''filestorage''],
      live = [''db'' \<mapsto> ''state'', ''filestorage'' \<mapsto> ''files''],
      snapshots = [], diffs = Map.empty, send_calls = 0\<rparr>"

definition ex_stream :: "string \<Rightarrow> string" where
  "ex_stream c = ''<'' @ c @ ''>''"

text \<open>Snapshot directories listed in an order that is not the numeric one.\<close>

definition ex_snapshots :: "nat list \<Rightarrow> manager" where
  "ex_snapshots bs =
     ex_manager\<lparr>snapshots :=
       map (\<lambda>b. (b, [''db'' \<mapsto> ''state'', ''filestorage'' \<mapsto> ''files''])) bs\<rparr>"

text \<open>A file-storage tree with one file and no hash file, and toy digests.\<close>

definition ex_sha :: "string \<Rightarrow> h256" where
  "ex_sha s = of_nat (length s)"

definition ex_fin :: "h256 list \<Rightarrow> h256" where
  "ex_fin hs = foldl (\<lambda>acc h. 31 * acc + h) 7 hs"

definition ex_walk :: hash_walk where
  "ex_walk = \<lparr>file_content = (\<lambda>p. ''hello''), hash_files = Map.empty, ctx = []\<rparr>"

section \<open>Snapshots as the data model describes them\<close>




section \<open>Auxiliary notions of the proofs\<close>

text \<open>The count a tally holds for a hash, and a tally whose counts are positive.\<close>

definition cnt :: "(h256 \<times> nat) list \<Rightarrow> h256 \<Rightarrow> nat" where
  "cnt m h = (case map_of m h of None \<Rightarrow> 0 | Some c \<Rightarrow> c)"

definition pos_vals :: "(h256 \<times> nat) list \<Rightarrow> bool" where
  "pos_vals m = (\<forall>p \<in> set m. 0 < snd p)"



section \<open>Properties of the hash agent\<close>

lemma verify_loop_ok_iff:
  "verify_loop b a is = Inr () \<longleftrightarrow>
     (\<forall>i \<in> set is. \<not> is_self a i \<longrightarrow>
        Verification b (hashes a i) (signatures a i) (public_keys a i) = Inr True)"
  by (induction "is") (auto split: sum.splits bool.splits)

lemma verify_loop_fails:
  "verify_loop b a is \<noteq> Inr () \<Longrightarrow> \<exists>e. verify_loop b a is = Inl (VerifyFatal e)"
  by (induction "is") (auto split: sum.splits bool.splits)

lemma map_incr_keys: "fst ` set (map_incr h m) = insert h (fst ` set m)"
  by (induction h m rule: map_incr.induct) auto

lemma map_incr_sorted:
  "sorted_wrt (<) (map fst m) \<Longrightarrow> sorted_wrt (<) (map fst (map_incr h m))"
proof (induction h m rule: map_incr.induct)
  case (1 h)
  then show ?case by simp
next
  case (2 h k c m)
  show ?case
  proof (cases "h = k")
    case True
    with 2 show ?thesis by simp
  next
    case False
    note hk = this
    show ?thesis
    proof (cases "h < k")
      case True
      with 2 hk show ?thesis by (auto intro: less_trans)
    next
      case False
      with hk have kh: "k < h" by simp
      have "\<forall>x \<in> fst ` set (map_incr h m). k < x"
        using 2(2) kh by (auto simp: map_incr_keys)
      with 2 hk False show ?thesis by auto
    qed
  qed
qed

lemma map_incr_map_of:
  "sorted_wrt (<) (map fst m) \<Longrightarrow>
   map_of (map_incr h m) = (map_of m)(h \<mapsto> (case map_of m h of None \<Rightarrow> 1 | Some c \<Rightarrow> Suc c))"
proof (induction h m rule: map_incr.induct)
  case (1 h)
  then show ?case by simp
next
  case (2 h k c m)
  show ?case
  proof (cases "h = k")
    case True
    then show ?thesis by (auto simp: fun_eq_iff)
  next
    case False
    note hk = this
    show ?thesis
    proof (cases "h < k")
      case True
      have "h \<notin> fst ` set m" using 2(2) True by (auto)
      then have "map_of m h = None" by (simp add: map_of_eq_None_iff)
      with True hk show ?thesis by (auto simp: fun_eq_iff)
    next
      case False
      with 2 hk show ?thesis by (auto simp: fun_eq_iff)
    qed
  qed
qed

lemma map_incr_pos: "pos_vals m \<Longrightarrow> pos_vals (map_incr h m)"
  unfolding pos_vals_def by (induction h m rule: map_incr.induct) auto

lemma map_incr_cnt:
  "sorted_wrt (<) (map fst m) \<Longrightarrow> cnt (map_incr x m) h = cnt m h + (if h = x then 1 else 0)"
  by (simp add: cnt_def map_incr_map_of split: option.splits)

lemma tally_loop_inv:
  "sorted_wrt (<) (map fst m) \<Longrightarrow> pos_vals m \<Longrightarrow>
   sorted_wrt (<) (map fst (tally_loop a is m)) \<and> pos_vals (tally_loop a is m) \<and>
   (\<forall>h. cnt (tally_loop a is m) h =
          cnt m h + length (filter (\<lambda>i. \<not> is_self a i \<and> hashes a i = h) is))"
proof (induction "is" arbitrary: m)
  case Nil
  then show ?case by simp
next
  case (Cons i "is")
  show ?case
  proof (cases "is_self a i")
    case True
    with Cons show ?thesis by simp
  next
    case False
    have s: "sorted_wrt (<) (map fst (map_incr (hashes a i) m))"
      using Cons.prems(1) by (rule map_incr_sorted)
    have p: "pos_vals (map_incr (hashes a i) m)"
      using Cons.prems(2) by (rule map_incr_pos)
    from Cons.IH [OF s p] False Cons.prems(1) show ?thesis
      by (auto simp: map_incr_cnt)
  qed
qed

lemma map_hash_entry:
  "(h, c) \<in> set (map_hash a) \<longleftrightarrow> c = length (reporters a h) \<and> 0 < c"
proof -
  have inv: "sorted_wrt (<) (map fst (map_hash a)) \<and> pos_vals (map_hash a) \<and>
     (\<forall>h. cnt (map_hash a) h = length (reporters a h))"
    using tally_loop_inv [of "[]" a "[0..<agent_n a]"]
    by (simp add: map_hash_def pos_vals_def cnt_def reporters_def)
  then have d: "distinct (map fst (map_hash a))"
    by (simp add: strict_sorted_iff)
  have m: "(h, c) \<in> set (map_hash a) \<longleftrightarrow> map_of (map_hash a) h = Some c"
    using d by simp
  show ?thesis
  proof
    assume "(h, c) \<in> set (map_hash a)"
    then show "c = length (reporters a h) \<and> 0 < c"
      using inv m by (auto simp: cnt_def pos_vals_def split: option.splits)
  next
    assume r: "c = length (reporters a h) \<and> 0 < c"
    then have "cnt (map_hash a) h = c" using inv by simp
    with r show "(h, c) \<in> set (map_hash a)"
      unfolding m by (auto simp: cnt_def split: option.splits)
  qed
qed

lemma filter_disjoint_length:
  "\<forall>x. \<not> (P x \<and> Q x) \<Longrightarrow> length (filter P xs) + length (filter Q xs) \<le> length xs"
  by (induction xs) (auto simp: le_SucI)

lemma reporters_disjoint:
  "h \<noteq> h' \<Longrightarrow> length (reporters a h) + length (reporters a h') \<le> agent_n a"
  using filter_disjoint_length [of "\<lambda>i. \<not> is_self a i \<and> hashes a i = h"
      "\<lambda>i. \<not> is_self a i \<and> hashes a i = h'" "[0..<agent_n a]"]
  by (auto simp: reporters_def)

lemma winner_unique:
  "3 * length (reporters a h) > 2 * agent_n a \<Longrightarrow>
   3 * length (reporters a h') > 2 * agent_n a \<Longrightarrow> h = h'"
  using reporters_disjoint [of h h' a] by (cases "h = h'") auto

lemma find_winner_sound:
  "find_winner a = Some p \<Longrightarrow> p \<in> set (map_hash a) \<and> 3 * snd p > 2 * agent_n a"
proof -
  assume "find_winner a = Some p"
  then obtain i where "i < length (map_hash a)" "3 * snd (map_hash a ! i) > 2 * agent_n a"
      "p = map_hash a ! i"
    unfolding find_winner_def find_Some_iff by blast
  then show ?thesis by simp
qed

lemma find_winner_iff:
  "find_winner a = Some (h, k) \<longleftrightarrow> k = length (reporters a h) \<and> 3 * k > 2 * agent_n a"
proof
  assume "find_winner a = Some (h, k)"
  then have "(h, k) \<in> set (map_hash a)" "3 * k > 2 * agent_n a"
    using find_winner_sound [of a "(h, k)"] by simp_all
  then show "k = length (reporters a h) \<and> 3 * k > 2 * agent_n a"
    by (simp add: map_hash_entry)
next
  assume r: "k = length (reporters a h) \<and> 3 * k > 2 * agent_n a"
  then have "0 < k" by (cases k) auto
  with r have "(h, k) \<in> set (map_hash a)" by (simp add: map_hash_entry)
  with r have "find_winner a \<noteq> None"
    by (auto simp: find_winner_def find_None_iff)
  then obtain h' k' where f: "find_winner a = Some (h', k')" by auto
  then have "(h', k') \<in> set (map_hash a)" "3 * k' > 2 * agent_n a"
    using find_winner_sound [of a "(h', k')"] by simp_all
  then have "k' = length (reporters a h')" "3 * length (reporters a h') > 2 * agent_n a"
    by (simp_all add: map_hash_entry)
  with r have "h = h'" "k = k'" using winner_unique [of a h h'] by auto
  with f show "find_winner a = Some (h, k)" by simp
qed

lemma find_winner_None_iff:
  "find_winner a = None \<longleftrightarrow> (\<forall>h. \<not> 3 * length (reporters a h) > 2 * agent_n a)"
proof -
  have "find_winner a \<noteq> None \<longleftrightarrow> (\<exists>h k. find_winner a = Some (h, k))" by auto
  then show ?thesis unfolding find_winner_iff by auto
qed

lemma verifyAllData_ok_iff:
  "verifyAllData b a = Inr () \<longleftrightarrow>
     (\<forall>i < agent_n a. \<not> is_self a i \<longrightarrow>
        Verification b (hashes a i) (signatures a i) (public_keys a i) = Inr True)"
  by (auto simp: verifyAllData_def verify_loop_ok_iff)

lemma verify_loop_error:
  "verify_loop b a is = Inl e \<Longrightarrow>
   \<exists>j \<in> set is. \<not> is_self a j \<and>
     (Verification b (hashes a j) (signatures a j) (public_keys a j) = Inr False \<and>
        e = VerifyFatal (NotVerified j) \<or>
      (\<exists>w. Verification b (hashes a j) (signatures a j) (public_keys a j) = Inl w \<and>
        e = VerifyFatal (BlsException w)))"
  by (induction "is") (auto split: sum.splits bool.splits if_splits)

lemma voteForHash_verify_error:
  "verifyAllData b a = Inl e \<Longrightarrow> voteForHash b a = (Inl e, a)"
  by (simp add: voteForHash_def)

lemma voteForHash_no_winner:
  "verifyAllData b a = Inr () \<Longrightarrow> find_winner a = None \<Longrightarrow>
   voteForHash b a = (Inl NotEnoughVotes, a)"
  by (simp add: voteForHash_def)

lemma voteForHash_winner:
  "verifyAllData b a = Inr () \<Longrightarrow> find_winner a = Some (h, k) \<Longrightarrow>
   voteForHash b a =
     (let sel = reporters a h;
          a1 = a\<lparr>nodes_to_download_snapshot_from := nodes_to_download_snapshot_from a @ sel\<rparr>;
          cs = recover_signature b (map Suc sel) (map (signatures a) sel)
      in if Verification b h cs (common_public a) = Inr True
         then (Inr True, a1\<lparr>voted_hash := (h, cs)\<rparr>)
         else (Inr False, a1))"
  by (auto simp: voteForHash_def Let_def split: sum.splits bool.splits)

lemma voteForHash_true_iff:
  "fst (voteForHash b a) = Inr True \<and> fst (voted_hash (snd (voteForHash b a))) = h \<longleftrightarrow>
   verifyAllData b a = Inr () \<and> 2 * agent_n a < 3 * length (reporters a h) \<and>
   Verification b h (recover_signature b (map Suc (reporters a h))
       (map (signatures a) (reporters a h))) (common_public a) = Inr True"
proof (cases "verifyAllData b a")
  case (Inl e)
  then show ?thesis by (simp add: voteForHash_verify_error)
next
  case (Inr u)
  then have v: "verifyAllData b a = Inr ()" by simp
  show ?thesis
  proof (cases "find_winner a")
    case None
    then show ?thesis
      using v by (auto simp: voteForHash_no_winner find_winner_None_iff)
  next
    case (Some p)
    obtain h' k' where p: "p = (h', k')" by (cases p)
    with Some have f: "find_winner a = Some (h', k')" by simp
    then have w: "k' = length (reporters a h')" "2 * agent_n a < 3 * length (reporters a h')"
      by (simp_all add: find_winner_iff)
    show ?thesis
    proof (cases "h = h'")
      case True
      with v f w show ?thesis
        by (auto simp: voteForHash_winner Let_def)
    next
      case False
      have "\<not> 2 * agent_n a < 3 * length (reporters a h)"
        using winner_unique [of a h h'] w False by auto
      with v f False show ?thesis
        by (auto simp: voteForHash_winner Let_def)
    qed
  qed
qed

lemma collect_task_static [simp]:
  "nodes (collect_task rpc i a) = nodes a"
  "own_id (collect_task rpc i a) = own_id a"
  "common_public (collect_task rpc i a) = common_public a"
  "nodes_to_download_snapshot_from (collect_task rpc i a) = nodes_to_download_snapshot_from a"
  "voted_hash (collect_task rpc i a) = voted_hash a"
  by (auto simp: collect_task_def split: sum.splits)

lemma is_self_collect_task [simp]: "is_self (collect_task rpc i a) j = is_self a j"
  by (simp add: is_self_def)

lemma collect_loop_static:
  "nodes (collect_loop rpc is a) = nodes a \<and> own_id (collect_loop rpc is a) = own_id a \<and>
   common_public (collect_loop rpc is a) = common_public a \<and>
   nodes_to_download_snapshot_from (collect_loop rpc is a) = nodes_to_download_snapshot_from a \<and>
   voted_hash (collect_loop rpc is a) = voted_hash a"
  by (induction "is" arbitrary: a) (auto simp: is_self_def)

lemma collect_loop_slot:
  "(hashes (collect_loop rpc is a) j, signatures (collect_loop rpc is a) j,
    public_keys (collect_loop rpc is a) j) =
   (if j \<in> set is \<and> \<not> is_self a j
    then (case rpc j of Inl w \<Rightarrow> (hashes a j, signatures a j, public_keys a j) | Inr t \<Rightarrow> t)
    else (hashes a j, signatures a j, public_keys a j))"
proof (induction "is" arbitrary: a)
  case Nil
  then show ?case by simp
next
  case (Cons i "is")
  show ?case
  proof (cases "is_self a i")
    case True
    with Cons [of a] show ?thesis by auto
  next
    case False
    have t: "(hashes (collect_task rpc i a) j, signatures (collect_task rpc i a) j,
        public_keys (collect_task rpc i a) j) =
       (if j = i then (case rpc j of Inl w \<Rightarrow> (hashes a j, signatures a j, public_keys a j) | Inr t \<Rightarrow> t)
        else (hashes a j, signatures a j, public_keys a j))"
      by (auto simp: collect_task_def split: sum.splits)
    have "(hashes (collect_loop rpc (i # is) a) j, signatures (collect_loop rpc (i # is) a) j,
        public_keys (collect_loop rpc (i # is) a) j) =
      (hashes (collect_loop rpc is (collect_task rpc i a)) j,
       signatures (collect_loop rpc is (collect_task rpc i a)) j,
       public_keys (collect_loop rpc is (collect_task rpc i a)) j)"
      using False by simp
    also have "\<dots> = (if j \<in> set is \<and> \<not> is_self a j
        then (case rpc j of Inl w \<Rightarrow> (hashes (collect_task rpc i a) j,
               signatures (collect_task rpc i a) j, public_keys (collect_task rpc i a) j) | Inr t \<Rightarrow> t)
        else (hashes (collect_task rpc i a) j, signatures (collect_task rpc i a) j,
               public_keys (collect_task rpc i a) j))"
      using Cons [of "collect_task rpc i a"] by simp
    finally show ?thesis
      using False unfolding t by (auto split: sum.splits)
  qed
qed

lemma collect_static:
  "nodes (collect rpc a) = nodes a" "own_id (collect rpc a) = own_id a"
  "common_public (collect rpc a) = common_public a"
  "nodes_to_download_snapshot_from (collect rpc a) = nodes_to_download_snapshot_from a"
  "voted_hash (collect rpc a) = voted_hash a"
  "agent_n (collect rpc a) = agent_n a" "is_self (collect rpc a) j = is_self a j"
  using collect_loop_static [of rpc "[0..<agent_n a]" a]
  by (simp_all add: collect_def agent_n_def is_self_def)

lemma collect_slot:
  "(hashes (collect rpc a) j, signatures (collect rpc a) j, public_keys (collect rpc a) j) =
   (if j < agent_n a \<and> \<not> is_self a j
    then (case rpc j of Inl w \<Rightarrow> (hashes a j, signatures a j, public_keys a j) | Inr t \<Rightarrow> t)
    else (hashes a j, signatures a j, public_keys a j))"
  using collect_loop_slot [of rpc "[0..<agent_n a]" a j] by (simp add: collect_def)

lemma voteForHash_static:
  "nodes (snd (voteForHash b a)) = nodes a"
  by (auto simp: voteForHash_def Let_def split: sum.splits option.splits bool.splits)

lemma endpoint_cong: "nodes a = nodes a' \<Longrightarrow> endpoint a = endpoint a'"
  by (simp add: endpoint_def fun_eq_iff)

lemma voteForHash_true_list:
  assumes "fst (voteForHash b a) = Inr True"
  shows "nodes_to_download_snapshot_from (snd (voteForHash b a)) =
         nodes_to_download_snapshot_from a @ reporters a (fst (voted_hash (snd (voteForHash b a))))"
proof -
  have t: "verifyAllData b a = Inr ()"
    using assms voteForHash_true_iff [of b a "fst (voted_hash (snd (voteForHash b a)))"] by simp
  have "find_winner a \<noteq> None"
  proof
    assume "find_winner a = None"
    with t have "voteForHash b a = (Inl NotEnoughVotes, a)" by (rule voteForHash_no_winner)
    with assms show False by simp
  qed
  then obtain p where "find_winner a = Some p" by auto
  moreover obtain h k where "p = (h, k)" by (cases p)
  ultimately have f: "find_winner a = Some (h, k)" by simp
  show ?thesis
    using assms unfolding voteForHash_winner [OF t f] by (auto simp: Let_def split: if_splits)
qed

lemma getNodes_unfold:
  "getNodesToDownloadSnapshotFrom mk rpc blk a =
     (case fst (voteForHash (mk ((2 * agent_n a + 2) div 3) (agent_n a)) (collect (rpc blk) a)) of
        Inl e \<Rightarrow> (Inl e, snd (voteForHash (mk ((2 * agent_n a + 2) div 3) (agent_n a)) (collect (rpc blk) a)))
      | Inr False \<Rightarrow> (Inr [], snd (voteForHash (mk ((2 * agent_n a + 2) div 3) (agent_n a)) (collect (rpc blk) a)))
      | Inr True \<Rightarrow>
          (Inr (map (endpoint a)
             (nodes_to_download_snapshot_from
               (snd (voteForHash (mk ((2 * agent_n a + 2) div 3) (agent_n a)) (collect (rpc blk) a))))),
           snd (voteForHash (mk ((2 * agent_n a + 2) div 3) (agent_n a)) (collect (rpc blk) a))))"
proof -
  have "endpoint (snd (voteForHash (mk ((2 * agent_n a + 2) div 3) (agent_n a)) (collect (rpc blk) a)))
      = endpoint a"
    by (rule endpoint_cong) (simp add: voteForHash_static collect_static)
  then show ?thesis
    by (simp add: getNodesToDownloadSnapshotFrom_def Let_def split_beta
        split: sum.splits bool.splits)
qed

text \<open>
  C1, amended. The tally of \<open>voteForHash\<close> picks the hash \<open>H\<close> exactly when the
  number \<open>k\<close> of peers, this node left out, that reported \<open>H\<close> satisfies
  \<open>3k > 2n\<close>. \<open>voteForHash\<close> returns \<open>true\<close> with \<open>H\<close> as the voted hash exactly
  when, in addition, every collected share verifies (otherwise the call throws
  before the tally) and the signature recovered from the shares of the peers
  that reported \<open>H\<close> verifies against the common public key. After a successful
  vote, in a round that starts with an empty list of contributing peers,
  \<open>getNodesToDownloadSnapshotFrom\<close> returns the endpoints of exactly the peers,
  this node left out, whose stored hash is the voted hash, in index order.
\<close>
theorem vote_selects_supermajority_hash:
  "((\<exists>k. find_winner a = Some (H, k)) \<longleftrightarrow>
      2 * agent_n a < 3 * length (filter (\<lambda>i. \<not> is_self a i \<and> hashes a i = H) [0..<agent_n a]))
   \<and> ((fst (voteForHash b a) = Inr True \<and> fst (voted_hash (snd (voteForHash b a))) = H) \<longleftrightarrow>
       (verifyAllData b a = Inr () \<and>
        2 * agent_n a < 3 * length (filter (\<lambda>i. \<not> is_self a i \<and> hashes a i = H) [0..<agent_n a]) \<and>
        Verification b H
          (recover_signature b
             (map Suc (filter (\<lambda>i. \<not> is_self a i \<and> hashes a i = H) [0..<agent_n a]))
             (map (signatures a) (filter (\<lambda>i. \<not> is_self a i \<and> hashes a i = H) [0..<agent_n a])))
          (common_public a) = Inr True))
   \<and> (nodes_to_download_snapshot_from a = [] \<and>
       fst (voteForHash (mk ((2 * agent_n a + 2) div 3) (agent_n a)) (collect (rpc blk) a)) = Inr True \<longrightarrow>
       fst (getNodesToDownloadSnapshotFrom mk rpc blk a) =
         Inr (map (endpoint a)
           (filter (\<lambda>i. \<not> is_self a i \<and>
                        hashes (collect (rpc blk) a) i =
                        fst (voted_hash (snd (getNodesToDownloadSnapshotFrom mk rpc blk a))))
              [0..<agent_n a])))"
proof (intro conjI impI)
  show "(\<exists>k. find_winner a = Some (H, k)) \<longleftrightarrow>
      2 * agent_n a < 3 * length (filter (\<lambda>i. \<not> is_self a i \<and> hashes a i = H) [0..<agent_n a])"
    by (simp add: find_winner_iff reporters_def)
next
  show "(fst (voteForHash b a) = Inr True \<and> fst (voted_hash (snd (voteForHash b a))) = H) \<longleftrightarrow>
       (verifyAllData b a = Inr () \<and>
        2 * agent_n a < 3 * length (filter (\<lambda>i. \<not> is_self a i \<and> hashes a i = H) [0..<agent_n a]) \<and>
        Verification b H
          (recover_signature b
             (map Suc (filter (\<lambda>i. \<not> is_self a i \<and> hashes a i = H) [0..<agent_n a]))
             (map (signatures a) (filter (\<lambda>i. \<not> is_self a i \<and> hashes a i = H) [0..<agent_n a])))
          (common_public a) = Inr True)"
    using voteForHash_true_iff [of b a H] by (simp add: reporters_def)
next
  let ?b = "mk ((2 * agent_n a + 2) div 3) (agent_n a)"
  let ?a1 = "collect (rpc blk) a"
  assume h: "nodes_to_download_snapshot_from a = [] \<and> fst (voteForHash ?b ?a1) = Inr True"
  then have l: "nodes_to_download_snapshot_from (snd (voteForHash ?b ?a1)) =
      reporters ?a1 (fst (voted_hash (snd (voteForHash ?b ?a1))))"
    using voteForHash_true_list [of ?b ?a1] by (simp add: collect_static)
  have g: "getNodesToDownloadSnapshotFrom mk rpc blk a =
      (Inr (map (endpoint a) (nodes_to_download_snapshot_from (snd (voteForHash ?b ?a1)))),
       snd (voteForHash ?b ?a1))"
    using h by (simp add: getNodes_unfold)
  show "fst (getNodesToDownloadSnapshotFrom mk rpc blk a) =
         Inr (map (endpoint a)
           (filter (\<lambda>i. \<not> is_self a i \<and>
                        hashes (collect (rpc blk) a) i =
                        fst (voted_hash (snd (getNodesToDownloadSnapshotFrom mk rpc blk a))))
              [0..<agent_n a]))"
    unfolding g using l by (simp add: reporters_def collect_static)
qed

text \<open>
  The theorem at a round of four nodes in which the three peers report the
  same hash with shares of their own.
\<close>

theorem vote_selects_supermajority_hash_witness:
  "nodes_to_download_snapshot_from ex_agent = [] \<and>
   fst (voteForHash (ex_bls ((2 * agent_n ex_agent + 2) div 3) (agent_n ex_agent))
          (collect (ex_rpc_agree 7) ex_agent)) = Inr True \<and>
   fst (getNodesToDownloadSnapshotFrom ex_bls ex_rpc_agree 7 ex_agent) =
     Inr (map (endpoint ex_agent)
       (filter (\<lambda>i. \<not> is_self ex_agent i \<and>
                    hashes (collect (ex_rpc_agree 7) ex_agent) i =
                    fst (voted_hash (snd (getNodesToDownloadSnapshotFrom ex_bls ex_rpc_agree 7 ex_agent))))
          [0..<agent_n ex_agent])) \<and>
   fst (getNodesToDownloadSnapshotFrom ex_bls ex_rpc_agree 7 ex_agent) =
     Inr [''http://10.0.0.2:1234'', ''http://10.0.0.3:1234'', ''http://10.0.0.4:1234'']"
proof -
  have h: "nodes_to_download_snapshot_from ex_agent = [] \<and>
     fst (voteForHash (ex_bls ((2 * agent_n ex_agent + 2) div 3) (agent_n ex_agent))
          (collect (ex_rpc_agree 7) ex_agent)) = Inr True"
    by code_simp
  have e: "fst (getNodesToDownloadSnapshotFrom ex_bls ex_rpc_agree 7 ex_agent) =
     Inr [''http://10.0.0.2:1234'', ''http://10.0.0.3:1234'', ''http://10.0.0.4:1234'']"
    by code_simp
  from vote_selects_supermajority_hash [of ex_agent 171 "ex_bls 3 4" ex_bls ex_rpc_agree 7] h
  have "fst (getNodesToDownloadSnapshotFrom ex_bls ex_rpc_agree 7 ex_agent) =
     Inr (map (endpoint ex_agent)
       (filter (\<lambda>i. \<not> is_self ex_agent i \<and>
                    hashes (collect (ex_rpc_agree 7) ex_agent) i =
                    fst (voted_hash (snd (getNodesToDownloadSnapshotFrom ex_bls ex_rpc_agree 7 ex_agent))))
          [0..<agent_n ex_agent]))"
    by blast
  with h e show ?thesis by blast
qed

text \<open>
  C1 as stated fails: the three peers report the hash \<open>171\<close>, so \<open>3 * 3 > 2 * 4\<close>,
  but the share of the peer at index 2 does not verify; \<open>voteForHash\<close> throws
  and no hash is selected.
\<close>

theorem forged_share_blocks_selection:
  "2 * agent_n (collect (ex_rpc_forged 7) ex_agent) <
     3 * length (filter (\<lambda>i. \<not> is_self (collect (ex_rpc_forged 7) ex_agent) i \<and>
                            hashes (collect (ex_rpc_forged 7) ex_agent) i = 171)
                  [0..<agent_n (collect (ex_rpc_forged 7) ex_agent)]) \<and>
   fst (voteForHash (ex_bls 3 4) (collect (ex_rpc_forged 7) ex_agent)) =
     Inl (VerifyFatal (NotVerified 2)) \<and>
   voted_hash (snd (voteForHash (ex_bls 3 4) (collect (ex_rpc_forged 7) ex_agent))) =
     voted_hash ex_agent \<and>
   fst (getNodesToDownloadSnapshotFrom ex_bls ex_rpc_forged 7 ex_agent) =
     Inl (VerifyFatal (NotVerified 2))"
  by code_simp

text \<open>
  C2, amended. Let every collected share verify. When no hash reaches
  \<open>3k > 2n\<close>, \<open>voteForHash\<close> throws the \<open>std::logic_error\<close> of the tally,
  nothing is changed, and the exception leaves
  \<open>getNodesToDownloadSnapshotFrom\<close>, which returns no list. When a hash \<open>H\<close>
  reaches \<open>3k > 2n\<close> and the signature recovered from the shares of its
  reporters does not verify against the common public key (the check returns
  \<open>false\<close> or throws), \<open>voteForHash\<close> returns \<open>false\<close> and
  \<open>getNodesToDownloadSnapshotFrom\<close> returns the empty list.
\<close>

theorem no_quorum_throws_bad_aggregate_is_negative:
  assumes "b = mk ((2 * agent_n a + 2) div 3) (agent_n a)"
    and "a1 = collect (rpc blk) a"
    and "verifyAllData b a1 = Inr ()"
  shows "((\<forall>h. \<not> 2 * agent_n a1 <
              3 * length (filter (\<lambda>i. \<not> is_self a1 i \<and> hashes a1 i = h) [0..<agent_n a1])) \<longrightarrow>
          voteForHash b a1 = (Inl NotEnoughVotes, a1) \<and>
          getNodesToDownloadSnapshotFrom mk rpc blk a = (Inl NotEnoughVotes, a1))
       \<and> (2 * agent_n a1 <
              3 * length (filter (\<lambda>i. \<not> is_self a1 i \<and> hashes a1 i = H) [0..<agent_n a1]) \<and>
           Verification b H
             (recover_signature b
                (map Suc (filter (\<lambda>i. \<not> is_self a1 i \<and> hashes a1 i = H) [0..<agent_n a1]))
                (map (signatures a1) (filter (\<lambda>i. \<not> is_self a1 i \<and> hashes a1 i = H) [0..<agent_n a1])))
             (common_public a1) \<noteq> Inr True \<longrightarrow>
           fst (voteForHash b a1) = Inr False \<and>
           fst (getNodesToDownloadSnapshotFrom mk rpc blk a) = Inr [])"
proof (intro conjI impI)
  assume n: "\<forall>h. \<not> 2 * agent_n a1 <
              3 * length (filter (\<lambda>i. \<not> is_self a1 i \<and> hashes a1 i = h) [0..<agent_n a1])"
  then have "find_winner a1 = None"
    by (simp add: find_winner_None_iff reporters_def)
  with assms(3) show v: "voteForHash b a1 = (Inl NotEnoughVotes, a1)"
    by (rule voteForHash_no_winner)
  show "getNodesToDownloadSnapshotFrom mk rpc blk a = (Inl NotEnoughVotes, a1)"
    using v assms(1,2) by (simp add: getNodes_unfold)
next
  assume w: "2 * agent_n a1 <
              3 * length (filter (\<lambda>i. \<not> is_self a1 i \<and> hashes a1 i = H) [0..<agent_n a1]) \<and>
           Verification b H
             (recover_signature b
                (map Suc (filter (\<lambda>i. \<not> is_self a1 i \<and> hashes a1 i = H) [0..<agent_n a1]))
                (map (signatures a1) (filter (\<lambda>i. \<not> is_self a1 i \<and> hashes a1 i = H) [0..<agent_n a1])))
             (common_public a1) \<noteq> Inr True"
  then have f: "find_winner a1 = Some (H, length (reporters a1 H))"
    by (simp add: find_winner_iff reporters_def)
  show "fst (voteForHash b a1) = Inr False"
    using w unfolding voteForHash_winner [OF assms(3) f] by (simp add: Let_def reporters_def)
  then show "fst (getNodesToDownloadSnapshotFrom mk rpc blk a) = Inr []"
    using assms(1,2) by (simp add: getNodes_unfold)
qed

text \<open>
  C2 as stated fails: with four nodes, two peers report the hash \<open>171\<close> and one
  the hash \<open>205\<close>, all with shares of their own. No count reaches
  \<open>3k > 2 * 4\<close>, and the round ends with the exception, not with an empty list.
\<close>

theorem split_vote_throws:
  "agent_n ex_agent = 4 \<and>
   map_hash (collect (ex_rpc_split 7) ex_agent) = [(171, 2), (205, 1)] \<and>
   verifyAllData (ex_bls 3 4) (collect (ex_rpc_split 7) ex_agent) = Inr () \<and>
   fst (voteForHash (ex_bls 3 4) (collect (ex_rpc_split 7) ex_agent)) = Inl NotEnoughVotes \<and>
   fst (getNodesToDownloadSnapshotFrom ex_bls ex_rpc_split 7 ex_agent) = Inl NotEnoughVotes \<and>
   fst (getNodesToDownloadSnapshotFrom ex_bls ex_rpc_split 7 ex_agent) \<noteq> Inr []"
  by code_simp

text \<open>
  The theorem at the split round, and at a round in which the three peers agree
  but the common public key of the configuration is not the one the recovered
  signature belongs to.
\<close>

theorem no_quorum_throws_bad_aggregate_is_negative_witness:
  "verifyAllData (ex_bls 3 4) (collect (ex_rpc_split 7) ex_agent) = Inr () \<and>
   find_winner (collect (ex_rpc_split 7) ex_agent) = None \<and>
   fst (getNodesToDownloadSnapshotFrom ex_bls ex_rpc_split 7 ex_agent) = Inl NotEnoughVotes \<and>
   verifyAllData (ex_bls 3 4) (collect (ex_rpc_agree 7) (ex_agent\<lparr>common_public := 999\<rparr>)) = Inr () \<and>
   find_winner (collect (ex_rpc_agree 7) (ex_agent\<lparr>common_public := 999\<rparr>)) = Some (171, 3) \<and>
   fst (voteForHash (ex_bls 3 4) (collect (ex_rpc_agree 7) (ex_agent\<lparr>common_public := 999\<rparr>))) =
     Inr False \<and>
   fst (getNodesToDownloadSnapshotFrom ex_bls ex_rpc_agree 7 (ex_agent\<lparr>common_public := 999\<rparr>)) =
     Inr []"
proof -
  let ?a = "collect (ex_rpc_split 7) ex_agent"
  let ?c = "ex_agent\<lparr>common_public := 999\<rparr>"
  let ?a' = "collect (ex_rpc_agree 7) ?c"
  have n4: "agent_n ex_agent = 4" "agent_n ?c = 4" by code_simp+
  have b: "ex_bls 3 4 = ex_bls ((2 * agent_n ex_agent + 2) div 3) (agent_n ex_agent)"
    unfolding n4 by simp
  have b': "ex_bls 3 4 = ex_bls ((2 * agent_n ?c + 2) div 3) (agent_n ?c)"
    unfolding n4 by simp
  have v: "verifyAllData (ex_bls 3 4) ?a = Inr ()" by code_simp
  have n: "find_winner ?a = None" by code_simp
  then have q: "\<forall>h. \<not> 2 * agent_n ?a <
      3 * length (filter (\<lambda>i. \<not> is_self ?a i \<and> hashes ?a i = h) [0..<agent_n ?a])"
    by (simp add: find_winner_None_iff reporters_def)
  have r1: "fst (getNodesToDownloadSnapshotFrom ex_bls ex_rpc_split 7 ex_agent) = Inl NotEnoughVotes"
    using no_quorum_throws_bad_aggregate_is_negative
      [where b = "ex_bls 3 4" and mk = ex_bls and a = ex_agent and rpc = ex_rpc_split
         and blk = 7 and ?a1.0 = ?a and H = 0, OF b refl v] q
    by simp
  have v': "verifyAllData (ex_bls 3 4) ?a' = Inr ()" by code_simp
  have f': "find_winner ?a' = Some (171, 3)" by code_simp
  have w: "2 * agent_n ?a' <
      3 * length (filter (\<lambda>i. \<not> is_self ?a' i \<and> hashes ?a' i = 171) [0..<agent_n ?a']) \<and>
    Verification (ex_bls 3 4) 171
      (recover_signature (ex_bls 3 4)
         (map Suc (filter (\<lambda>i. \<not> is_self ?a' i \<and> hashes ?a' i = 171) [0..<agent_n ?a']))
         (map (signatures ?a') (filter (\<lambda>i. \<not> is_self ?a' i \<and> hashes ?a' i = 171) [0..<agent_n ?a'])))
      (common_public ?a') \<noteq> Inr True"
    by code_simp
  have r2: "fst (voteForHash (ex_bls 3 4) ?a') = Inr False \<and>
      fst (getNodesToDownloadSnapshotFrom ex_bls ex_rpc_agree 7 ?c) = Inr []"
    using no_quorum_throws_bad_aggregate_is_negative
      [where b = "ex_bls 3 4" and mk = ex_bls and a = ?c and rpc = ex_rpc_agree
         and blk = 7 and ?a1.0 = ?a' and H = 171, OF b' refl v'] w
    by blast
  from v n r1 v' f' r2 show ?thesis by blast
qed

text \<open>
  C3, amended. An RPC or decode failure of a peer is caught inside the peer's
  collection task: it leaves the three values of that peer's slot as they were
  before the round and raises nothing, while every peer that answers has its
  answer stored; the round then always proceeds to \<open>voteForHash\<close> on the
  collected state. Verification and tally run over every slot but this node's
  own, the untouched slot of the failed peer included: the round passes
  verification only if the values left in that slot verify, and the hash left
  in that slot is counted as a vote of that peer.
\<close>

theorem failed_peer_slot_is_kept_and_voted_on:
  assumes "i < agent_n a" and "\<not> is_self a i" and "rpc blk i = Inl w"
    and "b = mk ((2 * agent_n a + 2) div 3) (agent_n a)"
    and "a1 = collect (rpc blk) a"
  shows "hashes a1 i = hashes a i \<and> signatures a1 i = signatures a i \<and>
         public_keys a1 i = public_keys a i \<and>
         (\<forall>j < agent_n a. \<not> is_self a j \<longrightarrow>
            (\<forall>t. rpc blk j = Inr t \<longrightarrow> (hashes a1 j, signatures a1 j, public_keys a1 j) = t)) \<and>
         getNodesToDownloadSnapshotFrom mk rpc blk a =
           (case voteForHash b a1 of
              (Inl e, a2) \<Rightarrow> (Inl e, a2)
            | (Inr False, a2) \<Rightarrow> (Inr [], a2)
            | (Inr True, a2) \<Rightarrow>
                (Inr (map (endpoint a2) (nodes_to_download_snapshot_from a2)), a2)) \<and>
         (verifyAllData b a1 = Inr () \<longrightarrow>
            Verification b (hashes a i) (signatures a i) (public_keys a i) = Inr True) \<and>
         i \<in> set (reporters a1 (hashes a i)) \<and>
         (hashes a i, length (reporters a1 (hashes a i))) \<in> set (map_hash a1)"
proof -
  have s: "(hashes a1 i, signatures a1 i, public_keys a1 i) =
      (hashes a i, signatures a i, public_keys a i)"
    using assms(1,2,3) unfolding assms(5) collect_slot [of "rpc blk" a i] by simp
  then have s1: "hashes a1 i = hashes a i" "signatures a1 i = signatures a i"
      "public_keys a1 i = public_keys a i"
    by simp_all
  have o: "\<forall>j < agent_n a. \<not> is_self a j \<longrightarrow>
      (\<forall>t. rpc blk j = Inr t \<longrightarrow> (hashes a1 j, signatures a1 j, public_keys a1 j) = t)"
    unfolding assms(5) collect_slot by simp
  have g: "getNodesToDownloadSnapshotFrom mk rpc blk a =
           (case voteForHash b a1 of
              (Inl e, a2) \<Rightarrow> (Inl e, a2)
            | (Inr False, a2) \<Rightarrow> (Inr [], a2)
            | (Inr True, a2) \<Rightarrow>
                (Inr (map (endpoint a2) (nodes_to_download_snapshot_from a2)), a2))"
    unfolding assms(4,5)
    by (simp add: getNodesToDownloadSnapshotFrom_def Let_def split: prod.splits)
  have n: "i < agent_n a1" "\<not> is_self a1 i"
    using assms(1,2) unfolding assms(5) by (simp_all add: collect_static)
  have v: "verifyAllData b a1 = Inr () \<longrightarrow>
      Verification b (hashes a i) (signatures a i) (public_keys a i) = Inr True"
    using n s1 by (auto simp: verifyAllData_ok_iff)
  have r: "i \<in> set (reporters a1 (hashes a i))"
    using n s1 by (simp add: reporters_def)
  then have "0 < length (reporters a1 (hashes a i))"
    by (cases "reporters a1 (hashes a i)") auto
  then have m: "(hashes a i, length (reporters a1 (hashes a i))) \<in> set (map_hash a1)"
    by (simp add: map_hash_entry)
  from s1 o g v r m show ?thesis by blast
qed

text \<open>
  C3 as stated fails: the vote is not taken on the data of the remaining peers
  only. In a first round for block 7 only the peer at index 1 answers. In a
  second round for the same block that peer fails and the two others answer
  with the same hash: the hash left in the slot of the failed peer is counted
  (three votes, \<open>3 * 3 > 2 * 4\<close>) and the endpoint of the failed peer is
  returned. The same answers on an agent with an empty slot for that peer give
  two votes and no winner.
\<close>

theorem failed_peer_is_counted:
  "ex_rpc_retry 7 1 = Inl ''connection refused'' \<and>
   fst (getNodesToDownloadSnapshotFrom ex_bls ex_rpc_retry 7
          (snd (getNodesToDownloadSnapshotFrom ex_bls ex_rpc_first 7 ex_agent))) =
     Inr [''http://10.0.0.2:1234'', ''http://10.0.0.3:1234'', ''http://10.0.0.4:1234''] \<and>
   map_hash (collect (ex_rpc_retry 7)
          (snd (getNodesToDownloadSnapshotFrom ex_bls ex_rpc_first 7 ex_agent))) = [(171, 3)] \<and>
   fst (getNodesToDownloadSnapshotFrom ex_bls ex_rpc_retry 7 ex_agent) = Inl NotEnoughVotes"
  by code_simp

text \<open>
  The theorem at a round of a fresh agent in which the peer at index 1 fails and
  the others answer.
\<close>

theorem failed_peer_slot_is_kept_and_voted_on_witness:
  "1 < agent_n ex_agent \<and> \<not> is_self ex_agent 1 \<and>
   ex_rpc_retry 7 1 = Inl ''connection refused'' \<and>
   hashes (collect (ex_rpc_retry 7) ex_agent) 1 = hashes ex_agent 1 \<and>
   signatures (collect (ex_rpc_retry 7) ex_agent) 1 = signatures ex_agent 1 \<and>
   public_keys (collect (ex_rpc_retry 7) ex_agent) 1 = public_keys ex_agent 1 \<and>
   ex_rpc_retry 7 2 = Inr (171, (3, 171), 3) \<and>
   (hashes (collect (ex_rpc_retry 7) ex_agent) 2, signatures (collect (ex_rpc_retry 7) ex_agent) 2,
    public_keys (collect (ex_rpc_retry 7) ex_agent) 2) = (171, (3, 171), 3) \<and>
   verifyAllData (ex_bls 3 4) (collect (ex_rpc_retry 7) ex_agent) = Inr () \<and>
   Verification (ex_bls 3 4) (hashes ex_agent 1) (signatures ex_agent 1) (public_keys ex_agent 1) =
     Inr True \<and>
   1 \<in> set (reporters (collect (ex_rpc_retry 7) ex_agent) (hashes ex_agent 1))"
proof -
  let ?a1 = "collect (ex_rpc_retry 7) ex_agent"
  have n4: "agent_n ex_agent = 4" by code_simp
  have b: "ex_bls 3 4 = ex_bls ((2 * agent_n ex_agent + 2) div 3) (agent_n ex_agent)"
    unfolding n4 by simp
  have h1: "1 < agent_n ex_agent" by code_simp
  have h2: "\<not> is_self ex_agent 1" by code_simp
  have h3: "ex_rpc_retry 7 1 = Inl ''connection refused''" by code_simp
  have j1: "2 < agent_n ex_agent" by code_simp
  have j2: "\<not> is_self ex_agent 2" by code_simp
  have j3: "ex_rpc_retry 7 2 = Inr (171, (3, 171), 3)" by code_simp
  have v: "verifyAllData (ex_bls 3 4) ?a1 = Inr ()" by code_simp
  note t = failed_peer_slot_is_kept_and_voted_on
    [where i = 1 and a = ex_agent and rpc = ex_rpc_retry and blk = 7 and b = "ex_bls 3 4"
       and mk = ex_bls and ?a1.0 = ?a1, OF h1 h2 h3 b refl]
  from t have k: "hashes ?a1 1 = hashes ex_agent 1 \<and> signatures ?a1 1 = signatures ex_agent 1 \<and>
      public_keys ?a1 1 = public_keys ex_agent 1"
    by blast
  from t j1 j2 j3 have o: "(hashes ?a1 2, signatures ?a1 2, public_keys ?a1 2) = (171, (3, 171), 3)"
    by blast
  from t v have c: "Verification (ex_bls 3 4) (hashes ex_agent 1) (signatures ex_agent 1)
      (public_keys ex_agent 1) = Inr True"
    by blast
  from t have r: "1 \<in> set (reporters ?a1 (hashes ex_agent 1))" by blast
  from h1 h2 h3 k j3 o v c r show ?thesis by blast
qed

text \<open>
  C4. If, after collection, the hash, signature share and public key share
  stored for some peer do not verify (the check returns \<open>false\<close> or throws),
  \<open>voteForHash\<close> throws the \<open>std::runtime_error\<close> of \<open>verifyAllData\<close> with
  the cause nested in it (for the first such peer: the \<open>std::logic_error\<close> that
  names it, or the exception of the library), before any tally: the agent is
  left as collection left it, with no peer added to the download list and no
  voted hash set, and the exception leaves \<open>getNodesToDownloadSnapshotFrom\<close>.
\<close>

theorem forged_share_aborts_round:
  assumes "i < agent_n a" and "\<not> is_self a i"
    and "Verification b (hashes a i) (signatures a i) (public_keys a i) \<noteq> Inr True"
    and "b = mk ((2 * agent_n a0 + 2) div 3) (agent_n a0)"
    and "a = collect (rpc blk) a0"
  shows "\<exists>j e. j < agent_n a \<and> \<not> is_self a j \<and>
           (Verification b (hashes a j) (signatures a j) (public_keys a j) = Inr False \<and>
              e = NotVerified j \<or>
            (\<exists>w. Verification b (hashes a j) (signatures a j) (public_keys a j) = Inl w \<and>
              e = BlsException w)) \<and>
           voteForHash b a = (Inl (VerifyFatal e), a) \<and>
           getNodesToDownloadSnapshotFrom mk rpc blk a0 = (Inl (VerifyFatal e), a)"
proof -
  have "verifyAllData b a \<noteq> Inr ()"
    using assms(1,2,3) by (auto simp: verifyAllData_ok_iff)
  then obtain x where x: "verifyAllData b a = Inl x"
    by (cases "verifyAllData b a") auto
  then have "verify_loop b a [0..<agent_n a] = Inl x" by (simp add: verifyAllData_def)
  from verify_loop_error [OF this]
  obtain j where j: "j < agent_n a" "\<not> is_self a j"
    "Verification b (hashes a j) (signatures a j) (public_keys a j) = Inr False \<and>
        x = VerifyFatal (NotVerified j) \<or>
      (\<exists>w. Verification b (hashes a j) (signatures a j) (public_keys a j) = Inl w \<and>
        x = VerifyFatal (BlsException w))"
    by auto
  then obtain e where e: "x = VerifyFatal e"
    "Verification b (hashes a j) (signatures a j) (public_keys a j) = Inr False \<and> e = NotVerified j \<or>
      (\<exists>w. Verification b (hashes a j) (signatures a j) (public_keys a j) = Inl w \<and>
        e = BlsException w)"
    by auto
  have v: "voteForHash b a = (Inl (VerifyFatal e), a)"
    using x e(1) by (simp add: voteForHash_verify_error)
  have g: "getNodesToDownloadSnapshotFrom mk rpc blk a0 = (Inl (VerifyFatal e), a)"
    using v unfolding assms(4,5) by (simp add: getNodes_unfold)
  from j(1,2) e(2) v g show ?thesis by blast
qed

text \<open>
  The theorem at a round in which the peer at index 2 sends a signature that is
  not its own.
\<close>

theorem forged_share_aborts_round_witness:
  "2 < agent_n (collect (ex_rpc_forged 7) ex_agent) \<and>
   \<not> is_self (collect (ex_rpc_forged 7) ex_agent) 2 \<and>
   Verification (ex_bls 3 4) (hashes (collect (ex_rpc_forged 7) ex_agent) 2)
     (signatures (collect (ex_rpc_forged 7) ex_agent) 2)
     (public_keys (collect (ex_rpc_forged 7) ex_agent) 2) \<noteq> Inr True \<and>
   (\<exists>e. voteForHash (ex_bls 3 4) (collect (ex_rpc_forged 7) ex_agent) =
          (Inl (VerifyFatal e), collect (ex_rpc_forged 7) ex_agent) \<and>
        getNodesToDownloadSnapshotFrom ex_bls ex_rpc_forged 7 ex_agent =
          (Inl (VerifyFatal e), collect (ex_rpc_forged 7) ex_agent)) \<and>
   fst (getNodesToDownloadSnapshotFrom ex_bls ex_rpc_forged 7 ex_agent) =
     Inl (VerifyFatal (NotVerified 2))"
proof -
  let ?a = "collect (ex_rpc_forged 7) ex_agent"
  have n4: "agent_n ex_agent = 4" by code_simp
  have b: "ex_bls 3 4 = ex_bls ((2 * agent_n ex_agent + 2) div 3) (agent_n ex_agent)"
    unfolding n4 by simp
  have h1: "2 < agent_n ?a" by code_simp
  have h2: "\<not> is_self ?a 2" by code_simp
  have h3: "Verification (ex_bls 3 4) (hashes ?a 2) (signatures ?a 2) (public_keys ?a 2) \<noteq> Inr True"
    by code_simp
  have r: "fst (getNodesToDownloadSnapshotFrom ex_bls ex_rpc_forged 7 ex_agent) =
     Inl (VerifyFatal (NotVerified 2))"
    by code_simp
  from forged_share_aborts_round
    [where i = 2 and a = ?a and b = "ex_bls 3 4" and mk = ex_bls and ?a0.0 = ex_agent
       and rpc = ex_rpc_forged and blk = 7, OF h1 h2 h3 b refl]
  have "\<exists>e. voteForHash (ex_bls 3 4) ?a = (Inl (VerifyFatal e), ?a) \<and>
        getNodesToDownloadSnapshotFrom ex_bls ex_rpc_forged 7 ex_agent = (Inl (VerifyFatal e), ?a)"
    by blast
  with h1 h2 h3 r show ?thesis by blast
qed

section \<open>Properties of the snapshot manager\<close>

lemma set_dir_fields [simp]:
  "volumes (set_dir b d m) = volumes m" "live (set_dir b d m) = live m"
  "diffs (set_dir b d m) = diffs m" "send_calls (set_dir b d m) = send_calls m"
  by (simp_all add: set_dir_def)































text \<open>
  C5 fails on the code. \<open>removeSnapshot(1)\<close> deletes the clones of snapshot 1
  and leaves its directory, so the directory still exists afterwards and the
  second \<open>doSnapshot(1)\<close> of the sequence \<open>doSnapshot(1); removeSnapshot(1);
  doSnapshot(1)\<close> throws \<open>SnapshotPresent(1)\<close>, as does \<open>doSnapshot(1)\<close> while
  the snapshot exists. \<open>leaveNLastSnapshots\<close>, which prunes the same way, does
  remove the directory.
\<close>

theorem removeSnapshot_leaves_directory:
  "fst (doSnapshot 1 ex_manager) = Inr () \<and>
   fst (removeSnapshot 1 (snd (doSnapshot 1 ex_manager))) = Inr () \<and>
   snapshot_exists (snd (removeSnapshot 1 (snd (doSnapshot 1 ex_manager)))) 1 \<and>
   fst (doSnapshot 1 (snd (removeSnapshot 1 (snd (doSnapshot 1 ex_manager))))) =
     Inl (SnapshotPresent 1) \<and>
   fst (doSnapshot 1 (snd (doSnapshot 1 ex_manager))) = Inl (SnapshotPresent 1) \<and>
   fst (leaveNLastSnapshots 0 (snd (doSnapshot 1 ex_manager))) = Inr () \<and>
   \<not> snapshot_exists (snd (leaveNLastSnapshots 0 (snd (doSnapshot 1 ex_manager)))) 1"
  by (simp add: doSnapshot_def removeSnapshot_def snapshot_exists_def ex_manager_def
      create_directory_def btrfs_subvolume_snapshot_r_def btrfs_subvolume_delete_def set_dir_def
      leaveNLastSnapshots_def stoi_def remove_all_def)

text \<open>
  C6 fails on the code. With the snapshots 0, 3, 7, 10 the function returns the
  lowest number other than 0 and 0, \<open>(3, 0)\<close>, not \<open>(10, 7)\<close>; with the snapshots
  1, 2, 3 it returns \<open>(1, 0)\<close>; with the single snapshot 5 besides genesis it
  reads past the end of the map; only without any snapshot other than genesis
  does it return \<open>(0, 0)\<close>.
\<close>

theorem getLatestSnasphot_returns_lowest:
  "getLatestSnasphot (ex_snapshots [3, 0, 10, 7]) = Inr (3, 0) \<and>
   getLatestSnasphot (ex_snapshots [0, 5]) = Inl PastTheEnd \<and>
   getLatestSnasphot (ex_snapshots [1, 2, 3]) = Inr (1, 0) \<and>
   getLatestSnasphot (ex_snapshots [0]) = Inr (0, 0)"
  by (simp add: getLatestSnasphot_def ex_snapshots_def ex_manager_def stoi_def)

lemma remove_files_diffs:
  "remove_files fs m = m\<lparr>diffs := (\<lambda>f. if f \<in> set fs then None else diffs m f)\<rparr>"
proof (induction fs arbitrary: m)
  case Nil
  then show ?case by simp
next
  case (Cons f fs)
  have "(\<lambda>g. if g \<in> set fs then None else diffs (m\<lparr>diffs := (diffs m)(f := None)\<rparr>) g) =
      (\<lambda>g. if g \<in> set (f # fs) then None else diffs m g)"
    by (auto simp: fun_eq_iff)
  then show ?case
    unfolding remove_files.simps Cons.IH [of "m\<lparr>diffs := (diffs m)(f := None)\<rparr>"] by simp
qed

lemma send_loop_created:
  "send_loop stream path b vols created m = (Inr cr, m1) \<Longrightarrow>
   cr = created @ map (\<lambda>v. path @ ''_'' @ v) vols"
proof (induction vols arbitrary: created m)
  case Nil
  then show ?case by simp
next
  case (Cons vol vols)
  obtain res m2 where r: "btrfs_send stream (path @ ''_'' @ vol) b vol m = (res, m2)"
    by (cases "btrfs_send stream (path @ ''_'' @ vol) b vol m")
  show ?case
  proof (cases "res = 0")
    case True
    with Cons.prems r have "send_loop stream path b vols (created @ [path @ ''_'' @ vol]) m2 = (Inr cr, m1)"
      by (simp add: Let_def)
    from Cons.IH [OF this] show ?thesis by simp
  next
    case False
    with Cons.prems r show ?thesis by (simp add: Let_def)
  qed
qed

lemma makeOrGetDiff_cached:
  "diffs m (getDiffPath b) \<noteq> None \<Longrightarrow> makeOrGetDiff stream b m = (Inr (getDiffPath b), m)"
  by (simp add: makeOrGetDiff_def Let_def)

lemma makeOrGetDiff_success:
  assumes "makeOrGetDiff stream b m = (Inr p, m')"
  shows "p = getDiffPath b \<and> diffs m' p \<noteq> None"
proof (cases "diffs m (getDiffPath b) \<noteq> None")
  case True
  with assms show ?thesis by (auto simp: makeOrGetDiff_cached)
next
  case False
  note nf = this
  let ?path = "getDiffPath b"
  have ex: "snapshot_exists m b"
    using assms nf by (auto simp: makeOrGetDiff_def Let_def split: if_splits)
  obtain r m1 where sl: "send_loop stream ?path b (volumes m) [] m = (r, m1)"
    by (cases "send_loop stream ?path b (volumes m) [] m")
  show ?thesis
  proof (cases r)
    case (Inl e)
    with assms nf ex sl show ?thesis by (simp add: makeOrGetDiff_def Let_def)
  next
    case (Inr created)
    with sl have cr: "created = map (\<lambda>v. ?path @ ''_'' @ v) (volumes m)"
      using send_loop_created [of stream ?path b "volumes m" "[]" m created m1] by simp
    then have notin: "?path \<notin> set created" by auto
    obtain cat_res m2 where c: "system_cat created ?path m1 = (cat_res, m2)"
      by (cases "system_cat created ?path m1")
    then have d2: "diffs m2 ?path \<noteq> None"
      by (auto simp: system_cat_def Let_def)
    have res: "makeOrGetDiff stream b m =
        (if cat_res \<noteq> 0 then (Inl (CannotWrite ?path), remove_files created m2)
         else (Inr ?path, remove_files created m2))"
      using nf ex sl Inr c by (simp add: makeOrGetDiff_def Let_def)
    with assms have "p = ?path" "m' = remove_files created m2"
      by (auto split: if_splits)
    then show ?thesis using d2 notin by (simp add: remove_files_diffs)
  qed
qed

text \<open>
  C8. If a call \<open>makeOrGetDiff(b)\<close> succeeds, the diff file of \<open>b\<close> exists
  afterwards, and a second call returns the same path and changes nothing: the
  file has the same content and \<open>btrfs.send\<close> has not been called again.
\<close>

theorem makeOrGetDiff_second_call_is_cached:
  assumes "makeOrGetDiff stream b m = (Inr p, m')"
  shows "(\<exists>c. diffs m' p = Some c) \<and>
         makeOrGetDiff stream b m' = (Inr p, m') \<and>
         diffs (snd (makeOrGetDiff stream b m')) p = diffs m' p \<and>
         send_calls (snd (makeOrGetDiff stream b m')) = send_calls m'"
proof -
  from makeOrGetDiff_success [OF assms] have p: "p = getDiffPath b" "diffs m' p \<noteq> None"
    by blast+
  then have "diffs m' (getDiffPath b) \<noteq> None" by simp
  then have "makeOrGetDiff stream b m' = (Inr (getDiffPath b), m')"
    by (rule makeOrGetDiff_cached)
  with p show ?thesis by auto
qed

text \<open>
  The theorem at a data directory with two volumes: the first call sends both
  volumes, the second call sends nothing.
\<close>

theorem makeOrGetDiff_second_call_is_cached_witness:
  "fst (makeOrGetDiff ex_stream 1 (snd (doSnapshot 1 ex_manager))) = Inr ''1'' \<and>
   diffs (snd (makeOrGetDiff ex_stream 1 (snd (doSnapshot 1 ex_manager)))) ''1'' =
     Some ''<state><files>'' \<and>
   send_calls (snd (makeOrGetDiff ex_stream 1 (snd (doSnapshot 1 ex_manager)))) = 2 \<and>
   fst (makeOrGetDiff ex_stream 1 (snd (makeOrGetDiff ex_stream 1 (snd (doSnapshot 1 ex_manager))))) =
     Inr ''1'' \<and>
   diffs (snd (makeOrGetDiff ex_stream 1
       (snd (makeOrGetDiff ex_stream 1 (snd (doSnapshot 1 ex_manager)))))) ''1'' =
     Some ''<state><files>'' \<and>
   send_calls (snd (makeOrGetDiff ex_stream 1
       (snd (makeOrGetDiff ex_stream 1 (snd (doSnapshot 1 ex_manager)))))) = 2"
proof -
  let ?m = "snd (doSnapshot 1 ex_manager)"
  let ?m' = "snd (makeOrGetDiff ex_stream 1 ?m)"
  have f: "fst (makeOrGetDiff ex_stream 1 ?m) = Inr ''1''" by code_simp
  have d: "diffs ?m' ''1'' = Some ''<state><files>''" by code_simp
  have c: "send_calls ?m' = 2" by code_simp
  from f have "makeOrGetDiff ex_stream 1 ?m = (Inr ''1'', ?m')"
    by (metis prod.collapse)
  from makeOrGetDiff_second_call_is_cached [OF this]
  have "makeOrGetDiff ex_stream 1 ?m' = (Inr ''1'', ?m')" by blast
  then have "fst (makeOrGetDiff ex_stream 1 ?m') = Inr ''1''"
      "snd (makeOrGetDiff ex_stream 1 ?m') = ?m'"
    by simp_all
  with f d c show ?thesis by simp
qed

text \<open>
  C10. If the diff file of \<open>b\<close> exists, \<open>makeOrGetDiff(b)\<close> returns its path at
  once and changes nothing, whether snapshot \<open>b\<close> exists or not. Only when the
  file does not exist is the snapshot looked for: if it is absent, the diff path
  is removed and \<open>SnapshotAbsent(b)\<close> is thrown.
\<close>

theorem cached_diff_served_without_snapshot_check:
  "(diffs m (getDiffPath b) \<noteq> None \<longrightarrow>
      makeOrGetDiff stream b m = (Inr (getDiffPath b), m)) \<and>
   (diffs m (getDiffPath b) = None \<and> \<not> snapshot_exists m b \<longrightarrow>
      makeOrGetDiff stream b m =
        (Inl (SnapshotAbsent b), m\<lparr>diffs := (diffs m)(getDiffPath b := None)\<rparr>))"
  by (simp add: makeOrGetDiff_def Let_def)

text \<open>
  The theorem at a data directory that holds the diff of block 1 and no
  snapshot, and at one that holds neither.
\<close>

theorem cached_diff_served_without_snapshot_check_witness:
  "\<not> snapshot_exists (ex_manager\<lparr>diffs := [''1'' \<mapsto> ''<state><files>'']\<rparr>) 1 \<and>
   diffs (ex_manager\<lparr>diffs := [''1'' \<mapsto> ''<state><files>'']\<rparr>) (getDiffPath 1) \<noteq> None \<and>
   makeOrGetDiff ex_stream 1 (ex_manager\<lparr>diffs := [''1'' \<mapsto> ''<state><files>'']\<rparr>) =
     (Inr (getDiffPath 1), ex_manager\<lparr>diffs := [''1'' \<mapsto> ''<state><files>'']\<rparr>) \<and>
   diffs ex_manager (getDiffPath 1) = None \<and> \<not> snapshot_exists ex_manager 1 \<and>
   makeOrGetDiff ex_stream 1 ex_manager =
     (Inl (SnapshotAbsent 1), ex_manager\<lparr>diffs := (diffs ex_manager)(getDiffPath 1 := None)\<rparr>)"
proof -
  let ?m = "ex_manager\<lparr>diffs := [''1'' \<mapsto> ''<state><files>'']\<rparr>"
  have p: "getDiffPath 1 = ''1''" by code_simp
  have a: "\<not> snapshot_exists ?m 1" by code_simp
  have b: "diffs ?m (getDiffPath 1) \<noteq> None" unfolding p by simp
  have c: "diffs ex_manager (getDiffPath 1) = None" unfolding p by (simp add: ex_manager_def)
  have d: "\<not> snapshot_exists ex_manager 1" by code_simp
  from cached_diff_served_without_snapshot_check [of ?m 1 ex_stream] b
  have r1: "makeOrGetDiff ex_stream 1 ?m = (Inr (getDiffPath 1), ?m)" by blast
  from cached_diff_served_without_snapshot_check [of ex_manager 1 ex_stream] c d
  have r2: "makeOrGetDiff ex_stream 1 ex_manager =
     (Inl (SnapshotAbsent 1), ex_manager\<lparr>diffs := (diffs ex_manager)(getDiffPath 1 := None)\<rparr>)"
    by blast
  from a b r1 c d r2 show ?thesis by blast
qed

section \<open>Properties of the content hasher\<close>

text \<open>
  C7, amended. In build mode (\<open>is_checking = false\<close>), for a regular file that is
  not itself a hash file: if the file has no hash file, its digest (the hash of
  its path followed by the hash of its content) is computed, stored in the hash
  file, and folded into the running digest on the same pass; if its hash file
  exists, the stored digest is folded in and nothing is written.
\<close>

theorem build_mode_folds_new_file_digest:
  "(\<not> suffix ''._hash'' p \<and> hash_files w (p @ ''._hash'') = None \<longrightarrow>
      proceed_entry sha fin False (p, True) w =
        w\<lparr>hash_files := (hash_files w)(p @ ''._hash'' \<mapsto> fin [sha p, sha (file_content w p)]),
          ctx := ctx w @ [fin [sha p, sha (file_content w p)]]\<rparr>) \<and>
   (\<not> suffix ''._hash'' p \<and> hash_files w (p @ ''._hash'') = Some h \<longrightarrow>
      proceed_entry sha fin False (p, True) w = w\<lparr>ctx := ctx w @ [h]\<rparr>)"
  by (simp add: proceed_entry_def Let_def file_hash_def read_hash_def)

text \<open>The theorem at a file without a hash file and at the same file with one.\<close>

theorem build_mode_folds_new_file_digest_witness:
  "\<not> suffix ''._hash'' ''/fs/a.txt'' \<and> hash_files ex_walk (''/fs/a.txt'' @ ''._hash'') = None \<and>
   ctx (proceed_entry ex_sha ex_fin False (''/fs/a.txt'', True) ex_walk) =
     [ex_fin [ex_sha ''/fs/a.txt'', ex_sha ''hello'']] \<and>
   hash_files (ex_walk\<lparr>hash_files := [''/fs/a.txt._hash'' \<mapsto> 5]\<rparr>) (''/fs/a.txt'' @ ''._hash'') =
     Some 5 \<and>
   ctx (proceed_entry ex_sha ex_fin False (''/fs/a.txt'', True)
          (ex_walk\<lparr>hash_files := [''/fs/a.txt._hash'' \<mapsto> 5]\<rparr>)) = [5]"
proof -
  let ?w = "ex_walk\<lparr>hash_files := [''/fs/a.txt._hash'' \<mapsto> 5]\<rparr>"
  have s: "\<not> suffix ''._hash'' ''/fs/a.txt''" by (simp add: suffix_def)
  have n: "hash_files ex_walk (''/fs/a.txt'' @ ''._hash'') = None" by (simp add: ex_walk_def)
  have e: "hash_files ?w (''/fs/a.txt'' @ ''._hash'') = Some 5" by simp
  from build_mode_folds_new_file_digest [of "''/fs/a.txt''" ex_walk ex_sha ex_fin 5] s n
  have "proceed_entry ex_sha ex_fin False (''/fs/a.txt'', True) ex_walk =
      ex_walk\<lparr>hash_files := (hash_files ex_walk)(''/fs/a.txt'' @ ''._hash'' \<mapsto>
          ex_fin [ex_sha ''/fs/a.txt'', ex_sha (file_content ex_walk ''/fs/a.txt'')]),
        ctx := ctx ex_walk @ [ex_fin [ex_sha ''/fs/a.txt'', ex_sha (file_content ex_walk ''/fs/a.txt'')]]\<rparr>"
    by blast
  then have r1: "ctx (proceed_entry ex_sha ex_fin False (''/fs/a.txt'', True) ex_walk) =
     [ex_fin [ex_sha ''/fs/a.txt'', ex_sha ''hello'']]"
    by (simp add: ex_walk_def)
  from build_mode_folds_new_file_digest [of "''/fs/a.txt''" ?w ex_sha ex_fin 5] s e
  have "proceed_entry ex_sha ex_fin False (''/fs/a.txt'', True) ?w = ?w\<lparr>ctx := ctx ?w @ [5]\<rparr>"
    by blast
  then have r2: "ctx (proceed_entry ex_sha ex_fin False (''/fs/a.txt'', True) ?w) = [5]"
    by (simp add: ex_walk_def)
  from s n r1 e r2 show ?thesis by blast
qed

text \<open>
  C7 as stated fails: a walk in build mode over one regular file without a hash
  file writes the digest of the file to the running context, which differs
  from the context of a walk that skips the file.
\<close>

theorem new_file_is_folded_in_build_mode:
  "hash_files ex_walk ''/fs/a.txt._hash'' = None \<and> ctx ex_walk = [] \<and>
   ctx (proceedFileSystemDirectory ex_sha ex_fin [(''/fs/a.txt'', True)] False ex_walk) =
     [ex_fin [ex_sha ''/fs/a.txt'', ex_sha ''hello'']] \<and>
   ctx (proceedFileSystemDirectory ex_sha ex_fin [(''/fs/a.txt'', True)] False ex_walk) \<noteq>
     ctx (proceedFileSystemDirectory ex_sha ex_fin [] False ex_walk) \<and>
   hash_files (proceedFileSystemDirectory ex_sha ex_fin [(''/fs/a.txt'', True)] False ex_walk)
     ''/fs/a.txt._hash'' = Some (ex_fin [ex_sha ''/fs/a.txt'', ex_sha ''hello''])"
  by (simp add: ex_walk_def proceed_entry_def Let_def file_hash_def read_hash_def suffix_def)

end
